theory Spec2Isabelle
  imports Main "HOL-Library.Sublist"
begin

section \<open>Strings\<close>

text \<open>
  A JavaScript string is a sequence of UTF-16 code units.  It is modelled as a
  \<^typ>\<open>string\<close>, one \<^typ>\<open>char\<close> per code unit, which covers the code units
  \<open>0..255\<close>.  None of the regular expressions of \<^verbatim>\<open>index.ts\<close> carries the
  \<^verbatim>\<open>u\<close> flag, so each of them reads a string code unit by code unit.
\<close>

definition dquote :: char where
  "dquote = CHR 0x22"

text \<open>
  The class \<^verbatim>\<open>\s\<close> of a regular expression, which is also what
  \<^verbatim>\<open>String.prototype.trim\<close> strips: TAB, LF, VT, FF, CR, SPACE and NBSP (the
  other members lie above code unit 255).
\<close>

definition is_space :: "char \<Rightarrow> bool" where
  "is_space c = (c \<in> {CHR 0x09, CHR 0x0A, CHR 0x0B, CHR 0x0C, CHR 0x0D, CHR 0x20, CHR 0xA0})"

text \<open>
  \<^verbatim>\<open>source.replace(/pat/g, rep)\<close> for a pattern that is a literal, non-empty
  text and a replacement without \<^verbatim>\<open>$\<close>: the matches are taken from left to
  right and do not overlap.
\<close>

fun replaceAll :: "string \<Rightarrow> string \<Rightarrow> string \<Rightarrow> string" where
  "replaceAll pat rep [] = []"
| "replaceAll pat rep (c # cs) =
     (if pat \<noteq> [] \<and> prefix pat (c # cs)
      then rep @ replaceAll pat rep (drop (length pat) (c # cs))
      else c # replaceAll pat rep cs)"

section \<open>Escaper\<close>

text \<open>\<^verbatim>\<open>Element.escape(source, inline = false)\<close>, lines 82-90.\<close>

definition escape :: "string \<Rightarrow> bool \<Rightarrow> string" where
  "escape source inline =
     (let result = replaceAll ''>'' ''&gt;''
                     (replaceAll ''<'' ''&lt;''
                       (replaceAll ''&'' ''&amp;'' source))
      in if inline then replaceAll [dquote] ''&quot;'' result else result)"

text \<open>\<^verbatim>\<open>Element.unescape(source)\<close>, lines 92-98.\<close>

definition unescape :: "string \<Rightarrow> string" where
  "unescape source =
     replaceAll ''&amp;'' ''&''
       (replaceAll ''&quot;'' [dquote]
         (replaceAll ''&gt;'' ''>''
           (replaceAll ''&lt;'' ''<'' source)))"

text \<open>
  The text that stands for one character after some of the four replacements of
  \<^const>\<open>escape\<close> have been made (a proof device: the flags say which).
\<close>

definition enc :: "bool \<Rightarrow> bool \<Rightarrow> bool \<Rightarrow> bool \<Rightarrow> char \<Rightarrow> string" where
  "enc a l g q c =
     (if c = CHR ''&'' \<and> a then ''&amp;''
      else if c = CHR ''<'' \<and> l then ''&lt;''
      else if c = CHR ''>'' \<and> g then ''&gt;''
      else if c = dquote \<and> q then ''&quot;''
      else [c])"

section \<open>Dictionaries\<close>

text \<open>
  A \<^verbatim>\<open>Dict<T>\<close> is a plain object: its own string-keyed properties, no key
  twice, in the order \<^verbatim>\<open>Object.entries\<close> lists them.  JavaScript lists the
  keys that are array indices (canonical decimal numerals below \<open>2^32 - 1\<close>) first,
  in ascending numeric order, and the other keys after them in the order they
  were created.  Lookups see own properties only: the members an object inherits
  from \<^verbatim>\<open>Object.prototype\<close> (and the setter \<^verbatim>\<open>__proto__\<close>) are outside
  the model.
\<close>

type_synonym 'v dict = "(string \<times> 'v) list"

definition digit_val :: "char \<Rightarrow> nat" where
  "digit_val c = of_char c - 48"

definition is_digit :: "char \<Rightarrow> bool" where
  "is_digit c = (c \<in> set ''0123456789'')"

definition index_val :: "string \<Rightarrow> nat" where
  "index_val k = foldl (\<lambda>n c. 10 * n + digit_val c) 0 k"

definition is_array_index :: "string \<Rightarrow> bool" where
  "is_array_index k =
     (k \<noteq> [] \<and> list_all is_digit k \<and> (k = ''0'' \<or> hd k \<noteq> CHR ''0'')
      \<and> index_val k < 4294967295)"

text \<open>Where a new key goes in the enumeration order.\<close>

fun insert_index :: "string \<Rightarrow> 'v \<Rightarrow> 'v dict \<Rightarrow> 'v dict" where
  "insert_index k v [] = [(k, v)]"
| "insert_index k v ((k', v') # d) =
     (if is_array_index k' \<and> index_val k' < index_val k
      then (k', v') # insert_index k v d
      else (k, v) # (k', v') # d)"

text \<open>\<^verbatim>\<open>d[k] = v\<close>\<close>

definition dict_set :: "string \<Rightarrow> 'v \<Rightarrow> 'v dict \<Rightarrow> 'v dict" where
  "dict_set k v d =
     (if k \<in> fst ` set d then map (\<lambda>(k', v'). if k' = k then (k', v) else (k', v')) d
      else if is_array_index k then insert_index k v d
      else d @ [(k, v)])"

text \<open>\<^verbatim>\<open>d[k]\<close>, \<^const>\<open>None\<close> for \<^verbatim>\<open>undefined\<close>\<close>

definition dict_get :: "'v dict \<Rightarrow> string \<Rightarrow> 'v option" where
  "dict_get d k = map_of d k"

section \<open>The string helpers of cosmokit\<close>

text \<open>
  Modelled from the spec: \<^verbatim>\<open>capitalize\<close>, \<^verbatim>\<open>camelize\<close> and
  \<^verbatim>\<open>hyphenate\<close> are imported from the package cosmokit, which is not among the
  sources.  The spec names them (\<^verbatim>\<open>"no" + Capitalize(key)\<close>, keys ``converted from
  internal camel form to hyphenated form'' and ``normalized from hyphenated/raw form
  to camel form'').  The definitions follow cosmokit's
  \<^verbatim>\<open>source.charAt(0).toUpperCase() + source.slice(1)\<close>,
  \<^verbatim>\<open>source.replace(/[_-][a-z]/g, str => str.slice(1).toUpperCase())\<close> and
  \<^verbatim>\<open>uncapitalize(source).replace(/_/g, '-').replace(/.[A-Z]+/g,
  str => str[0] + '-' + str.slice(1).toLowerCase())\<close>, with the case of the letters
  \<open>a..z\<close> and \<open>A..Z\<close> only.
\<close>

definition lower_letters :: string where
  "lower_letters = ''abcdefghijklmnopqrstuvwxyz''"

definition upper_letters :: string where
  "upper_letters = ''ABCDEFGHIJKLMNOPQRSTUVWXYZ''"

definition is_lower :: "char \<Rightarrow> bool" where
  "is_lower c = (c \<in> set lower_letters)"

definition is_upper :: "char \<Rightarrow> bool" where
  "is_upper c = (c \<in> set upper_letters)"

definition to_upper :: "char \<Rightarrow> char" where
  "to_upper c = (case map_of (zip lower_letters upper_letters) c of Some u \<Rightarrow> u | None \<Rightarrow> c)"

definition to_lower :: "char \<Rightarrow> char" where
  "to_lower c = (case map_of (zip upper_letters lower_letters) c of Some l \<Rightarrow> l | None \<Rightarrow> c)"

definition capitalize :: "string \<Rightarrow> string" where
  "capitalize source = (case source of [] \<Rightarrow> [] | c # cs \<Rightarrow> to_upper c # cs)"

definition uncapitalize :: "string \<Rightarrow> string" where
  "uncapitalize source = (case source of [] \<Rightarrow> [] | c # cs \<Rightarrow> to_lower c # cs)"

fun camelize :: "string \<Rightarrow> string" where
  "camelize (c # d # cs) =
     (if (c = CHR ''_'' \<or> c = CHR ''-'') \<and> is_lower d
      then to_upper d # camelize cs
      else c # camelize (d # cs))"
| "camelize cs = cs"

text \<open>
  \<^verbatim>\<open>replace(/.[A-Z]+/g, str => str[0] + '-' + str.slice(1).toLowerCase())\<close>:
  the dot matches every code unit but LF and CR (and the separators above 255).
\<close>

function hyphen_caps :: "string \<Rightarrow> string" where
  "hyphen_caps [] = []"
| "hyphen_caps [c] = [c]"
| "hyphen_caps (c # d # cs) =
     (if c \<noteq> CHR 0x0A \<and> c \<noteq> CHR 0x0D \<and> is_upper d
      then c # CHR ''-'' # map to_lower (takeWhile is_upper (d # cs))
             @ hyphen_caps (dropWhile is_upper (d # cs))
      else c # hyphen_caps (d # cs))"
  by pat_completeness auto
termination
  by (relation "measure length") (auto simp: less_Suc_eq_le le_SucI length_dropWhile_le)

definition hyphenate :: "string \<Rightarrow> string" where
  "hyphenate source = hyphen_caps (replaceAll ''_'' ''-'' (uncapitalize source))"

section \<open>The node model\<close>

text \<open>
  \<^verbatim>\<open>interface Element\<close>, lines 23-31: \<^verbatim>\<open>type\<close> is \<^const>\<open>None\<close> for
  \<^verbatim>\<open>null\<close> (the root frame of \<^verbatim>\<open>parse\<close> is \<^verbatim>\<open>Element(null)\<close>);
  \<^verbatim>\<open>attrs\<close> is a \<^verbatim>\<open>Dict<string>\<close>.
\<close>

datatype element =
  Node (type: "string option") (attrs: "string dict") (children: "element list")

text \<open>What the code throws.\<close>

datatype error = TypeError | Thrown

text \<open>
  The values of the \<^verbatim>\<open>Dict<any>\<close> the constructor reads: \<^verbatim>\<open>null\<close> or
  \<^verbatim>\<open>undefined\<close>, a boolean, a string.
\<close>

datatype jsval = Null | Bool bool | Str string

text \<open>\<^verbatim>\<open>Element.Content = string | Element | (string | Element)[]\<close>\<close>

datatype item = IStr string | IEl element

datatype content = CStr string | CEl element | CArr "item list"

text \<open>
  The attributes loop of the constructor, lines 62-71, over
  \<^verbatim>\<open>Object.entries\<close> of its argument.
\<close>

fun make_attrs :: "jsval dict \<Rightarrow> string dict \<Rightarrow> string dict" where
  "make_attrs [] ats = ats"
| "make_attrs ((key, value) # rest) ats =
     (case value of
        Null \<Rightarrow> make_attrs rest ats
      | Bool True \<Rightarrow> make_attrs rest (dict_set key '''' ats)
      | Bool False \<Rightarrow> make_attrs rest (dict_set (''no'' @ capitalize key) '''' ats)
      | Str s \<Rightarrow> make_attrs rest (dict_set key s ats))"

text \<open>
  \<^verbatim>\<open>toElement\<close> (lines 10-13) calls \<^verbatim>\<open>Element('text', { content })\<close>, whose
  attributes loop stores the one string and which gets no children.
\<close>

definition text_node :: "string \<Rightarrow> element" where
  "text_node content = Node (Some ''text'') (make_attrs [(''content'', Str content)] []) []"

fun toElement :: "item \<Rightarrow> element" where
  "toElement (IStr content) = text_node content"
| "toElement (IEl el) = el"

text \<open>
  \<^verbatim>\<open>isElement\<close>, lines 6-8, reads \<^verbatim>\<open>source[kElement]\<close>.  Nothing sets that
  property: \<^verbatim>\<open>interface Element\<close> declares it (line 24), but neither the class
  \<^verbatim>\<open>ElementConstructor\<close> nor the constructor assigns it, and the symbol
  \<^verbatim>\<open>kElement\<close> does not leave the module.  The test reads \<^verbatim>\<open>undefined\<close> on
  every element.
\<close>

definition isElement :: "element \<Rightarrow> bool" where
  "isElement source = False"

text \<open>
  \<^verbatim>\<open>toElementArray\<close>, lines 15-21.  An input that is neither a string, nor passes
  \<^const>\<open>isElement\<close>, nor is an array falls off the end of the function:
  \<^const>\<open>None\<close> is the \<^verbatim>\<open>undefined\<close> it returns.
\<close>

fun toElementArray :: "content \<Rightarrow> element list option" where
  "toElementArray (CStr s) = Some [toElement (IStr s)]"
| "toElementArray (CEl el) = (if isElement el then Some [toElement (IEl el)] else None)"
| "toElementArray (CArr input) = Some (map toElement input)"

text \<open>
  The children a call of the constructor passes, a string or an array.  (An element
  in the place of \<^verbatim>\<open>attrs\<close> or of \<^verbatim>\<open>children\<close> does not pass
  \<^const>\<open>isElement\<close>: line 61 reads it as the attrs mapping, line 73 leaves
  \<^verbatim>\<open>children\<close> undefined.  No function of the module calls the constructor so, and
  that call is not part of the model.)
\<close>

datatype child_content = OfString string | OfArray "item list"

fun content_of :: "child_content \<Rightarrow> content" where
  "content_of (OfString s) = CStr s"
| "content_of (OfArray input) = CArr input"

text \<open>\<^verbatim>\<open>if (args[0])\<close>: the empty string is the one falsy content.\<close>

fun truthy :: "content \<Rightarrow> bool" where
  "truthy (CStr s) = (s \<noteq> [])"
| "truthy (CEl el) = True"
| "truthy (CArr input) = True"

text \<open>
  \<^verbatim>\<open>Element(type, ...args)\<close>, lines 56-75, for its two signatures:
  \<^verbatim>\<open>Element(type, children?)\<close> is \<open>Element type None children\<close> and
  \<^verbatim>\<open>Element(type, attrs, children?)\<close> is \<open>Element type (Some attrs) children\<close>.
  On a string and on an array \<^const>\<open>toElementArray\<close> returns an array.
\<close>

definition Element ::
  "string option \<Rightarrow> jsval dict option \<Rightarrow> child_content option \<Rightarrow> element" where
  "Element ty attrs_arg children_arg =
     Node ty
       (case attrs_arg of None \<Rightarrow> [] | Some d \<Rightarrow> make_attrs d [])
       (case children_arg of
          None \<Rightarrow> []
        | Some c \<Rightarrow>
            if truthy (content_of c)
            then (case toElementArray (content_of c) of Some els \<Rightarrow> els | None \<Rightarrow> [])
            else [])"

text \<open>An \<^verbatim>\<open>attrs\<close> object passed on to the constructor, as in \<^verbatim>\<open>Element(type, attrs, ...)\<close>.\<close>

definition as_any :: "string dict \<Rightarrow> jsval dict" where
  "as_any d = map (\<lambda>(k, v). (k, Str v)) d"

section \<open>Serialization\<close>

text \<open>\<^verbatim>\<open>array.join('')\<close> over results that may have thrown\<close>

fun join_results :: "(error + string) list \<Rightarrow> error + string" where
  "join_results [] = Inr []"
| "join_results (Inl e # rs) = Inl e"
| "join_results (Inr s # rs) = (case join_results rs of Inl e \<Rightarrow> Inl e | Inr t \<Rightarrow> Inr (s @ t))"

text \<open>
  One entry of \<^verbatim>\<open>Object.entries(this.attrs).map(...)\<close>, lines 43-48.  The values
  are strings, so \<^verbatim>\<open>isNullable(value)\<close> is false.
\<close>

definition attr_string :: "string \<times> string \<Rightarrow> string" where
  "attr_string kv =
     (case kv of (key, value) \<Rightarrow>
        if value = [] then '' '' @ hyphenate key
        else '' '' @ hyphenate key @ ''='' @ [dquote] @ escape value True @ [dquote])"

text \<open>
  \<^verbatim>\<open>toString()\<close>, lines 40-51.  \<^verbatim>\<open>Element.escape(undefined)\<close> throws a
  TypeError (\<^verbatim>\<open>source.replace\<close> of \<^verbatim>\<open>undefined\<close>).
\<close>

fun toString :: "element \<Rightarrow> error + string" where
  "toString (Node ty at cs) =
     (if ty = None \<or> ty = Some [] then join_results (map toString cs)
      else if ty = Some ''text'' then
        (case dict_get at ''content'' of
           None \<Rightarrow> Inl TypeError
         | Some content \<Rightarrow> Inr (escape content False))
      else
        (let ats = concat (map attr_string at) in
         if cs = [] then Inr (''<'' @ the ty @ ats @ ''/>'')
         else (case join_results (map toString cs) of
                 Inl e \<Rightarrow> Inl e
               | Inr inner \<Rightarrow> Inr (''<'' @ the ty @ ats @ ''>'' @ inner @ ''</'' @ the ty @ ''>''))))"

section \<open>Regular expressions\<close>

text \<open>
  The regular expressions of \<^verbatim>\<open>index.ts\<close> are built from single characters,
  character classes, sequences, a greedy option \<^verbatim>\<open>r?\<close>, the greedy
  \<^verbatim>\<open>[..]*\<close> and \<^verbatim>\<open>[..]+\<close> and the lazy \<^verbatim>\<open>[..]*?\<close> of a class, and
  capture groups.  \<^verbatim>\<open>(?:r)\<close> groups without capturing and needs no constructor.
\<close>

datatype rx =
    Chr char
  | Cls "char \<Rightarrow> bool"
  | Seq rx rx
  | OptG rx
  | StarG "char \<Rightarrow> bool"
  | PlusG "char \<Rightarrow> bool"
  | StarL "char \<Rightarrow> bool"
  | Cap nat rx

text \<open>The captures of a match: \<^const>\<open>None\<close> for a group that took no part.\<close>

type_synonym caps = "nat \<Rightarrow> string option"

text \<open>
  The backtracking matcher of ECMAScript (ECMA-262, 22.2.2): \<open>m r k c s\<close> matches
  \<open>r\<close> at the start of \<open>s\<close> and hands the captures and the rest of the input to the
  continuation \<open>k\<close>; when the continuation fails, the next alternative of \<open>r\<close> is
  tried: a greedy quantifier gives up one repetition, a lazy one takes one more.
\<close>

fun m :: "rx \<Rightarrow> (caps \<Rightarrow> string \<Rightarrow> 'a option) \<Rightarrow> caps \<Rightarrow> string \<Rightarrow> 'a option" where
  "m (Chr x) k c [] = None"
| "m (Chr x) k c (y # ys) = (if y = x then k c ys else None)"
| "m (Cls p) k c [] = None"
| "m (Cls p) k c (y # ys) = (if p y then k c ys else None)"
| "m (Seq r1 r2) k c s = m r1 (\<lambda>c' s'. m r2 k c' s') c s"
| "m (OptG r) k c s = (case m r k c s of Some res \<Rightarrow> Some res | None \<Rightarrow> k c s)"
| "m (StarG p) k c [] = k c []"
| "m (StarG p) k c (y # ys) =
     (if p y then (case m (StarG p) k c ys of Some res \<Rightarrow> Some res | None \<Rightarrow> k c (y # ys))
      else k c (y # ys))"
| "m (PlusG p) k c [] = None"
| "m (PlusG p) k c (y # ys) = (if p y then m (StarG p) k c ys else None)"
| "m (StarL p) k c [] = k c []"
| "m (StarL p) k c (y # ys) =
     (case k c (y # ys) of
        Some res \<Rightarrow> Some res
      | None \<Rightarrow> if p y then m (StarL p) k c ys else None)"
| "m (Cap n r) k c s = m r (\<lambda>c' s'. k (c'(n \<mapsto> take (length s - length s') s)) s') c s"

text \<open>The continuation at the end of the pattern.\<close>

definition accept :: "caps \<Rightarrow> string \<Rightarrow> (caps \<times> string) option" where
  "accept c s = Some (c, s)"

text \<open>
  The search of \<^verbatim>\<open>exec\<close>: the first position, from left to right, where the
  pattern matches.  The result is the index of the match, its captures and the
  input after it.
\<close>

fun exec_at :: "rx \<Rightarrow> string \<Rightarrow> nat \<Rightarrow> (nat \<times> caps \<times> string) option" where
  "exec_at r [] i =
     (case m r accept Map.empty [] of Some (c, s') \<Rightarrow> Some (i, c, s') | None \<Rightarrow> None)"
| "exec_at r (y # ys) i =
     (case m r accept Map.empty (y # ys) of
        Some (c, s') \<Rightarrow> Some (i, c, s')
      | None \<Rightarrow> exec_at r ys (Suc i))"

text \<open>\<^verbatim>\<open>regexp.exec(s)\<close> without the \<^verbatim>\<open>g\<close> flag: the search starts at 0.\<close>

definition exec :: "rx \<Rightarrow> string \<Rightarrow> (nat \<times> caps \<times> string) option" where
  "exec r s = exec_at r s 0"

text \<open>
  \<^verbatim>\<open>regexp.exec(s)\<close> with the \<^verbatim>\<open>g\<close> flag: the search starts at
  \<^verbatim>\<open>lastIndex\<close> and fails beyond the end of \<open>s\<close>; the third component of the
  result is the new \<^verbatim>\<open>lastIndex\<close>, the end of the match.  After a failure
  \<^verbatim>\<open>lastIndex\<close> is 0 again, so every loop that runs until \<^verbatim>\<open>exec\<close> fails
  leaves it at 0 for the next one.
\<close>

definition exec_global :: "rx \<Rightarrow> string \<Rightarrow> nat \<Rightarrow> (nat \<times> caps \<times> nat) option" where
  "exec_global r s lastIndex =
     (if length s < lastIndex then None
      else case exec_at r (drop lastIndex s) lastIndex of
             None \<Rightarrow> None
           | Some (index, c, s') \<Rightarrow> Some (index, c, length s - length s'))"

text \<open>A capture destructured with the default \<^verbatim>\<open>''\<close>.\<close>

definition group :: "caps \<Rightarrow> nat \<Rightarrow> string" where
  "group c n = (case c n of None \<Rightarrow> [] | Some s \<Rightarrow> s)"

text \<open>The least number of characters a match takes.\<close>

fun minlen :: "rx \<Rightarrow> nat" where
  "minlen (Chr x) = 1"
| "minlen (Cls p) = 1"
| "minlen (Seq r1 r2) = minlen r1 + minlen r2"
| "minlen (OptG r) = 0"
| "minlen (StarG p) = 0"
| "minlen (PlusG p) = 1"
| "minlen (StarL p) = 0"
| "minlen (Cap n r) = minlen r"

text \<open>\<^verbatim>\<open>/ *([ >+~]) */g\<close>, line 107\<close>

definition combRegExp :: rx where
  "combRegExp =
     Seq (StarG (\<lambda>c. c = CHR '' ''))
    (Seq (Cap 1 (Cls (\<lambda>c. c \<in> set '' >+~'')))
         (StarG (\<lambda>c. c = CHR '' '')))"

text \<open>\<^verbatim>\<open>/<(\/?)\s*([^\s>]+)([^>]*?)\s*(\/?)>/\<close>, line 157\<close>

definition tagRegExp :: rx where
  "tagRegExp =
     Seq (Chr CHR ''<'')
    (Seq (Cap 1 (OptG (Chr CHR ''/'')))
    (Seq (StarG is_space)
    (Seq (Cap 2 (PlusG (\<lambda>c. \<not> is_space c \<and> c \<noteq> CHR ''>'')))
    (Seq (Cap 3 (StarL (\<lambda>c. c \<noteq> CHR ''>'')))
    (Seq (StarG is_space)
    (Seq (Cap 4 (OptG (Chr CHR ''/'')))
         (Chr CHR ''>'')))))))"

text \<open>\<^verbatim>\<open>/([^\s=]+)(?:="([^"]*)")?/g\<close>, line 158\<close>

definition attrRegExp :: rx where
  "attrRegExp =
     Seq (Cap 1 (PlusG (\<lambda>c. \<not> is_space c \<and> c \<noteq> CHR ''='')))
         (OptG (Seq (Chr CHR ''='')
               (Seq (Chr dquote)
               (Seq (Cap 2 (StarG (\<lambda>c. c \<noteq> dquote)))
                    (Chr dquote)))))"

text \<open>A match leaves at least \<^const>\<open>minlen\<close> characters less: the loops over \<^verbatim>\<open>exec\<close> end.\<close>

lemma m_shorter:
  "m r k c s = Some res \<Longrightarrow>
     \<exists>c' s'. k c' s' = Some res \<and> length s' + minlen r \<le> length s"
proof (induction r k c s arbitrary: res rule: m.induct)
  case (5 r1 r2 k c s)
  from "5.prems" have "m r1 (\<lambda>c' s'. m r2 k c' s') c s = Some res" by simp
  from "5.IH"(2)[OF this] obtain c1 s1 where
    a: "m r2 k c1 s1 = Some res" and b: "length s1 + minlen r1 \<le> length s" by blast
  from "5.IH"(1)[OF a] obtain c2 s2 where
    "k c2 s2 = Some res" "length s2 + minlen r2 \<le> length s1" by blast
  with b show ?case by (intro exI[of _ c2] exI[of _ s2]) simp
next
  case (13 n r k c s)
  from "13.prems"
  have "m r (\<lambda>c' s'. k (c'(n \<mapsto> take (length s - length s') s)) s') c s = Some res"
    by simp
  from "13.IH"[OF this] show ?case by auto
qed (fastforce split: if_splits option.splits)+

lemma exec_at_shorter:
  "exec_at r s i = Some (j, c, s') \<Longrightarrow>
     length s' + minlen r \<le> length s \<and> i \<le> j \<and> j \<le> i + length s"
proof (induction s arbitrary: i)
  case Nil
  then show ?case using m_shorter[of r accept Map.empty "[]"]
    by (auto simp: accept_def split: option.splits)
next
  case (Cons y ys)
  show ?case
  proof (cases "m r accept Map.empty (y # ys)")
    case None
    with Cons.prems have "exec_at r ys (Suc i) = Some (j, c, s')" by simp
    from Cons.IH[OF this] show ?thesis by simp
  next
    case (Some a)
    with Cons.prems m_shorter[OF Some] show ?thesis by (auto simp: accept_def)
  qed
qed

section \<open>Parser\<close>

text \<open>\<^verbatim>\<open>interface Token\<close>, lines 160-165; a text run is a plain string.\<close>

datatype token = Token (tag: string) (close: string) (empty: string) (tattrs: "string dict")

datatype tok = TText string | TTag token

text \<open>
  The loop over \<^verbatim>\<open>attrRegExp.exec(attrs)\<close>, lines 177-180, with the
  \<^verbatim>\<open>lastIndex\<close> of the expression and the \<^verbatim>\<open>token.attrs\<close> built so far.
\<close>

function attr_loop :: "string \<Rightarrow> nat \<Rightarrow> string dict \<Rightarrow> string dict" where
  "attr_loop ats lastIndex d =
     (case exec_global attrRegExp ats lastIndex of
        None \<Rightarrow> d
      | Some (index, attrCap, lastIndex') \<Rightarrow>
          attr_loop ats lastIndex'
            (dict_set (camelize (group attrCap 1)) (unescape (group attrCap 2)) d))"
  by pat_completeness auto
termination
proof (relation "measure (\<lambda>(ats, lastIndex, d). Suc (length ats) - lastIndex)", goal_cases)
  case 1
  show ?case by simp
next
  case (2 ats lastIndex d x2 index y attrCap lastIndex')
  then obtain s' where
    e: "exec_at attrRegExp (drop lastIndex ats) lastIndex = Some (index, attrCap, s')"
    and l: "lastIndex' = length ats - length s'" and le: "lastIndex \<le> length ats"
    by (auto simp: exec_global_def split: if_splits option.splits)
  from exec_at_shorter[OF e] have "length s' + 1 \<le> length ats - lastIndex"
    by (simp add: attrRegExp_def)
  with l le show ?case by simp
qed

text \<open>
  The tokenizer, lines 168-184.  The text before a tag is unescaped; the text left
  after the last tag is pushed as it is (line 184).
\<close>

function tokenize :: "string \<Rightarrow> tok list" where
  "tokenize source =
     (case exec tagRegExp source of
        None \<Rightarrow> (if source \<noteq> [] then [TText source] else [])
      | Some (index, tagCap, source') \<Rightarrow>
          (if index \<noteq> 0 then [TText (unescape (take index source))] else [])
          @ TTag (Token (group tagCap 2) (group tagCap 1) (group tagCap 4)
                    (attr_loop (group tagCap 3) 0 []))
          # tokenize source')"
  by pat_completeness auto
termination
proof (relation "measure length", goal_cases)
  case 1
  show ?case by simp
next
  case (2 source x2 index y tagCap source')
  then have "exec_at tagRegExp source 0 = Some (index, tagCap, source')"
    by (simp add: exec_def)
  from exec_at_shorter[OF this] show ?case by (simp add: tagRegExp_def)
qed

text \<open>
  The tree builder, lines 185-197.  In the source the stack holds references: every
  element on it but the root is the last child of the one below it, and only
  \<^verbatim>\<open>stack[0]\<close> gets children.  The model keeps each open element on the stack
  with the children it has so far and appends it to the one below when it leaves the
  stack (\<^verbatim>\<open>stack.shift()\<close>) or, for the elements still open at the end, in
  \<open>unwind\<close>.  \<^verbatim>\<open>stack.shift()\<close> of the last frame leaves the stack empty, and
  \<^verbatim>\<open>stack[0].children\<close> of an empty stack throws a TypeError.
\<close>

definition push_child :: "element \<Rightarrow> element \<Rightarrow> element" where
  "push_child child frame = Node (type frame) (attrs frame) (children frame @ [child])"

fun build :: "tok list \<Rightarrow> element list \<Rightarrow> error + element list" where
  "build [] stack = Inr stack"
| "build (TText s # tokens) stack =
     (case stack of
        [] \<Rightarrow> Inl TypeError
      | cur # below \<Rightarrow> build tokens (push_child (toElement (IStr s)) cur # below))"
| "build (TTag t # tokens) stack =
     (if close t \<noteq> [] then
        build tokens
          (case stack of
             [] \<Rightarrow> []
           | [root] \<Rightarrow> []
           | cur # parent # below \<Rightarrow> push_child cur parent # below)
      else
        (case stack of
           [] \<Rightarrow> Inl TypeError
         | cur # below \<Rightarrow>
             (let element = Element (Some (tag t)) (Some (as_any (tattrs t))) None in
              if empty t = [] then build tokens (element # cur # below)
              else build tokens (push_child element cur # below))))"

text \<open>\<^verbatim>\<open>stack[stack.length - 1]\<close> with the elements still open in place\<close>

fun unwind :: "element list \<Rightarrow> element option" where
  "unwind [] = None"
| "unwind [root] = Some root"
| "unwind (cur # parent # below) = unwind (push_child cur parent # below)"

text \<open>\<^verbatim>\<open>Element.parse(source)\<close>, lines 167-198\<close>

definition parse :: "string \<Rightarrow> error + element list" where
  "parse source =
     (case build (tokenize source) [Element None None None] of
        Inl e \<Rightarrow> Inl e
      | Inr stack \<Rightarrow>
          (case unwind stack of
             None \<Rightarrow> Inl TypeError
           | Some root \<Rightarrow> Inr (children root)))"

section \<open>Selector parser\<close>

text \<open>\<^verbatim>\<open>interface Selector\<close>, lines 102-105\<close>

datatype selector = Selector (stype: string) (combinator: string)

text \<open>\<^verbatim>\<open>input.split(',')\<close>\<close>

fun split_on :: "char \<Rightarrow> string \<Rightarrow> string list" where
  "split_on sep [] = [[]]"
| "split_on sep (c # cs) =
     (if c = sep then [] # split_on sep cs
      else (case split_on sep cs of [] \<Rightarrow> [[c]] | part # parts \<Rightarrow> (c # part) # parts))"

text \<open>\<^verbatim>\<open>query.trim()\<close>\<close>

definition trim :: "string \<Rightarrow> string" where
  "trim s = rev (dropWhile is_space (rev (dropWhile is_space s)))"

text \<open>
  The loop over \<^verbatim>\<open>combRegExp.exec(query)\<close>, lines 114-118.  The expression is
  global: each search starts at the \<^verbatim>\<open>lastIndex\<close> the match before left, while
  \<^verbatim>\<open>query\<close> has been cut to what follows that match.
\<close>

function comb_loop ::
  "string \<Rightarrow> nat \<Rightarrow> string \<Rightarrow> selector list \<Rightarrow> string \<times> string \<times> selector list" where
  "comb_loop qry lastIndex comb selectors =
     (case exec_global combRegExp qry lastIndex of
        None \<Rightarrow> (qry, comb, selectors)
      | Some (index, combCap, lastIndex') \<Rightarrow>
          comb_loop (drop lastIndex' qry) lastIndex' (group combCap 1)
            (selectors @ [Selector (take index qry) comb]))"
  by pat_completeness auto
termination
proof (relation "measure (\<lambda>(qry, lastIndex, comb, selectors). length qry)", goal_cases)
  case 1
  show ?case by simp
next
  case (2 qry lastIndex comb selectors x2 index y combCap lastIndex')
  then obtain s' where
    e: "exec_at combRegExp (drop lastIndex qry) lastIndex = Some (index, combCap, s')"
    and l: "lastIndex' = length qry - length s'" and le: "lastIndex \<le> length qry"
    by (auto simp: exec_global_def split: if_splits option.splits)
  from exec_at_shorter[OF e] have "length s' + 1 \<le> length qry - lastIndex"
    by (simp add: combRegExp_def)
  with l le show ?case by simp
qed

text \<open>\<^verbatim>\<open>Element.parseSelector(input)\<close>, lines 109-122\<close>

definition parseSelector :: "string \<Rightarrow> selector list list" where
  "parseSelector input =
     map (\<lambda>qry.
            case comb_loop (trim qry) 0 '' '' [] of
              (qry', comb, selectors) \<Rightarrow> selectors @ [Selector qry' comb])
         (split_on CHR '','' input)"

section \<open>Query engine\<close>

text \<open>
  What the loop over \<^verbatim>\<open>local\<close> (lines 136-152) changes: the elements yielded,
  \<^verbatim>\<open>inner\<close>, \<^verbatim>\<open>adjacent\<close> and \<^verbatim>\<open>query\<close> (the loop pushes to
  \<^verbatim>\<open>query\<close> for the combinator \<^verbatim>\<open>~\<close>).
\<close>

record sel_state =
  yielded :: "element list"
  inner :: "selector list list"
  adjacent :: "selector list list"
  query :: "selector list list"

text \<open>The body of the loop for one group; \<^verbatim>\<open>group[0].type\<close> of an empty group throws.\<close>

fun match_group :: "element \<Rightarrow> selector list \<Rightarrow> sel_state \<Rightarrow> error + sel_state" where
  "match_group el [] st = Inl TypeError"
| "match_group el (selector # others) st =
     (let st1 =
        (if type el = Some (stype selector) then
           (case others of
              [] \<Rightarrow> st\<lparr>yielded := yielded st @ [el]\<rparr>
            | next_sel # _ \<Rightarrow>
                if combinator next_sel \<in> {'' '', ''>''} then st\<lparr>inner := inner st @ [others]\<rparr>
                else if combinator next_sel = ''+'' then st\<lparr>adjacent := adjacent st @ [others]\<rparr>
                else st\<lparr>query := query st @ [others]\<rparr>)
         else st)
      in Inr (if combinator selector = '' '' then st1\<lparr>inner := inner st1 @ [selector # others]\<rparr>
              else st1))"

fun match_groups :: "element \<Rightarrow> selector list list \<Rightarrow> sel_state \<Rightarrow> error + sel_state" where
  "match_groups el [] st = Inr st"
| "match_groups el (g # gs) st =
     (case match_group el g st of Inl e \<Rightarrow> Inl e | Inr st' \<Rightarrow> match_groups el gs st')"

text \<open>
  The loop over \<^verbatim>\<open>elements.entries()\<close> of the generator \<^verbatim>\<open>_select\<close>, lines
  132-154, from one sibling on, with \<^verbatim>\<open>query\<close> and \<^verbatim>\<open>adjacent\<close> as they
  stand; the result lists what the generator yields, in order.
\<close>

fun select_each ::
  "element list \<Rightarrow> selector list list \<Rightarrow> selector list list \<Rightarrow> error + element list" where
  "select_each [] qry adj = Inr []"
| "select_each (Node ty ats cs # rest) qry adj =
     (case match_groups (Node ty ats cs) (qry @ adj)
             \<lparr>yielded = [], inner = [], adjacent = [], query = qry\<rparr> of
        Inl e \<Rightarrow> Inl e
      | Inr st \<Rightarrow>
          (case (if inner st = [] then Inr [] else select_each cs (inner st) []) of
             Inl e \<Rightarrow> Inl e
           | Inr below \<Rightarrow>
               (case select_each rest (query st) (adjacent st) of
                  Inl e \<Rightarrow> Inl e
                | Inr later \<Rightarrow> Inr (yielded st @ below @ later))))"

text \<open>\<^verbatim>\<open>_select(elements, query)\<close>, lines 129-155\<close>

definition select_gen :: "element list \<Rightarrow> selector list list \<Rightarrow> error + element list" where
  "select_gen elements qry = (if qry = [] then Inr [] else select_each elements qry [])"

text \<open>\<^verbatim>\<open>Element.select(source, query)\<close>, lines 124-127\<close>

definition select :: "string + element list \<Rightarrow> string \<Rightarrow> error + element list" where
  "select source qry =
     (case (case source of Inl s \<Rightarrow> parse s | Inr els \<Rightarrow> Inr els) of
        Inl e \<Rightarrow> Inl e
      | Inr elements \<Rightarrow> select_gen elements (parseSelector qry))"

section \<open>Transform engine\<close>

text \<open>
  \<^verbatim>\<open>Element.Transformer\<close>, line 79: a boolean, literal content, or a callable
  that returns one of the two.  A callable is a function of its three arguments;
  \<^const>\<open>None\<close> is a call that throws.
\<close>

datatype result = RBool bool | RContent content

datatype transformer =
    TBool bool
  | TContent content
  | TFun "element \<Rightarrow> nat \<Rightarrow> element list \<Rightarrow> result option"

text \<open>The property key \<^verbatim>\<open>element.type\<close> stands for.\<close>

definition type_key :: "string option \<Rightarrow> string" where
  "type_key ty = (case ty of None \<Rightarrow> ''null'' | Some s \<Rightarrow> s)"

text \<open>\<^verbatim>\<open>rules[element.type] ?? rules.default ?? true\<close>\<close>

definition rule_for :: "transformer dict \<Rightarrow> string option \<Rightarrow> transformer" where
  "rule_for rules ty =
     (case dict_get rules (type_key ty) of
        Some r \<Rightarrow> r
      | None \<Rightarrow> (case dict_get rules ''default'' of Some r \<Rightarrow> r | None \<Rightarrow> TBool True))"

text \<open>\<^verbatim>\<open>if (typeof result === 'function') result = result(element, index, elements)\<close>\<close>

fun call_rule :: "transformer \<Rightarrow> element \<Rightarrow> nat \<Rightarrow> element list \<Rightarrow> error + result" where
  "call_rule (TBool b) element index elements = Inr (RBool b)"
| "call_rule (TContent c) element index elements = Inr (RContent c)"
| "call_rule (TFun f) element index elements =
     (case f element index elements of None \<Rightarrow> Inl Thrown | Some r \<Rightarrow> Inr r)"

text \<open>
  The \<^verbatim>\<open>forEach\<close> of \<^verbatim>\<open>transform\<close>, lines 203-214.  In the branch for
  \<^verbatim>\<open>true\<close>, line 208 declares \<^verbatim>\<open>const { type, attrs, children } = element\<close>:
  inside that block \<^verbatim>\<open>children\<close> is the children array of the element, not the
  array of line 202 that \<^verbatim>\<open>transform\<close> returns.  Line 209 therefore appends the
  rebuilt element to the children of the element it is rebuilt from, and the array that
  is returned receives replacement content only (line 211).

  So the call changes the elements it is given.  The function takes the elements before
  the current one as the call has left them (\<open>prev\<close>), the current one and those after it
  (\<open>rest\<close>), and the array to return (\<open>out\<close>); it gives what is returned or thrown,
  and the elements as the call leaves them.  The index of the current element is the
  length of \<open>prev\<close>.  At line 211 the spread of an \<^verbatim>\<open>undefined\<close> throws a
  \<^verbatim>\<open>TypeError\<close>.  Elements are values here: an element that is referred to from two
  places of a forest counts as two (the store of the next section tells them apart).
\<close>

fun transform_each ::
  "transformer dict \<Rightarrow> element list \<Rightarrow> element list \<Rightarrow> element list
   \<Rightarrow> (error + element list) \<times> element list" where
  "transform_each rules prev [] out = (Inr out, prev)"
| "transform_each rules prev (Node ty ats cs # rest) out =
     (case call_rule (rule_for rules ty) (Node ty ats cs) (length prev)
             (prev @ Node ty ats cs # rest) of
        Inl e \<Rightarrow> (Inl e, prev @ Node ty ats cs # rest)
      | Inr (RBool True) \<Rightarrow>
          (case transform_each rules [] cs [] of
             (Inl e, cs1) \<Rightarrow> (Inl e, prev @ Node ty ats cs1 # rest)
           | (Inr sub, cs1) \<Rightarrow>
               transform_each rules
                 (prev @ [Node ty ats
                            (cs1 @ [Element ty (Some (as_any ats)) (Some (OfArray (map IEl sub)))])])
                 rest out)
      | Inr (RBool False) \<Rightarrow> transform_each rules (prev @ [Node ty ats cs]) rest out
      | Inr (RContent c) \<Rightarrow>
          (case toElementArray c of
             None \<Rightarrow> (Inl TypeError, prev @ Node ty ats cs # rest)
           | Some els \<Rightarrow> transform_each rules (prev @ [Node ty ats cs]) rest (out @ els)))"

text \<open>\<^verbatim>\<open>Element.transform(source, rules)\<close>, lines 200-216: what the call returns\<close>

definition transform :: "string + element list \<Rightarrow> transformer dict \<Rightarrow> error + element list" where
  "transform source rules =
     (case (case source of Inl s \<Rightarrow> parse s | Inr els \<Rightarrow> Inr els) of
        Inl e \<Rightarrow> Inl e
      | Inr elements \<Rightarrow> fst (transform_each rules [] elements []))"

text \<open>The elements of a forest \<open>source\<close> as the call \<^verbatim>\<open>transform(source, rules)\<close> leaves them\<close>

definition transform_leaves :: "element list \<Rightarrow> transformer dict \<Rightarrow> element list" where
  "transform_leaves source rules = snd (transform_each rules [] source [])"

text \<open>
  \<^verbatim>\<open>Promise.all\<close> over promises that have settled: the values in the order of
  the promises, or a rejection.  (The promises of \<^verbatim>\<open>transformAsync\<close> reject when a
  callable throws, all with the one value \<^const>\<open>Thrown\<close> here: which rejection comes
  first makes no difference.)
\<close>

fun promise_all :: "(error + 'a) list \<Rightarrow> error + 'a list" where
  "promise_all [] = Inr []"
| "promise_all (Inl e # ps) = Inl e"
| "promise_all (Inr x # ps) =
     (case promise_all ps of Inl e \<Rightarrow> Inl e | Inr xs \<Rightarrow> Inr (x # xs))"

text \<open>
  \<^verbatim>\<open>.flat(1)\<close>, line 233, over what the promises resolved to.  The promise of an
  element resolves to an array of elements, or to the \<^verbatim>\<open>undefined\<close> that
  \<^const>\<open>toElementArray\<close> returned (line 229), which \<^verbatim>\<open>flat\<close> keeps as a member
  of its result.  An array that has \<^verbatim>\<open>undefined\<close> in the place of an element, at
  the top or in the children of one of its elements, is not a forest of the model: it
  is \<^const>\<open>None\<close>.
\<close>

fun flat :: "'a list option list \<Rightarrow> 'a list option" where
  "flat [] = Some []"
| "flat (None # rs) = None"
| "flat (Some xs # rs) = (case flat rs of None \<Rightarrow> None | Some ys \<Rightarrow> Some (xs @ ys))"

text \<open>
  \<^verbatim>\<open>elements.map(async (element, index, elements) => ...)\<close>, lines 220-233: what
  the promise of each element settles to.  Nothing is written to the elements here
  (line 227 returns the rebuilt element).
\<close>

fun async_each ::
  "transformer dict \<Rightarrow> element list \<Rightarrow> nat \<Rightarrow> element list
   \<Rightarrow> (error + element list option) list" where
  "async_each rules elements index [] = []"
| "async_each rules elements index (Node ty ats cs # rest) =
     (case call_rule (rule_for rules ty) (Node ty ats cs) index elements of
        Inl e \<Rightarrow> Inl e
      | Inr (RBool True) \<Rightarrow>
          (case promise_all (async_each rules cs 0 cs) of
             Inl e \<Rightarrow> Inl e
           | Inr rs \<Rightarrow>
               (case flat rs of
                  None \<Rightarrow> Inr None
                | Some cs' \<Rightarrow>
                    Inr (Some [Element ty (Some (as_any ats)) (Some (OfArray (map IEl cs')))])))
      | Inr (RBool False) \<Rightarrow> Inr (Some [])
      | Inr (RContent c) \<Rightarrow> Inr (toElementArray c))
     # async_each rules elements (Suc index) rest"

text \<open>
  \<^verbatim>\<open>Element.transformAsync(source, rules)\<close>, lines 218-234: what the promise it
  returns settles to.
\<close>

definition transformAsync ::
  "string + element list \<Rightarrow> transformer dict \<Rightarrow> error + element list option" where
  "transformAsync source rules =
     (case (case source of Inl s \<Rightarrow> parse s | Inr els \<Rightarrow> Inr els) of
        Inl e \<Rightarrow> Inl e
      | Inr elements \<Rightarrow>
          (case promise_all (async_each rules elements 0 elements) of
             Inl e \<Rightarrow> Inl e
           | Inr rs \<Rightarrow> Inr (flat rs)))"

text \<open>A rules mapping whose values are booleans only.\<close>

fun is_boolean :: "transformer \<Rightarrow> bool" where
  "is_boolean (TBool b) = True"
| "is_boolean t = False"

definition boolean_rules :: "transformer dict \<Rightarrow> bool" where
  "boolean_rules rules = list_all (\<lambda>kv. is_boolean (snd kv)) rules"

section \<open>The transform engine on a store\<close>

text \<open>
  Which nodes \<^verbatim>\<open>transform\<close> writes to, and which nodes its result shares with
  the ones it is given, is a matter of references.  Here the nodes live in a store: a
  reference is an address, a node holds its type, its attrs and the addresses of its
  children, and \<^verbatim>\<open>Object.create\<close> allocates at the next free address.  The
  constructor gives every node an attrs object and a children array of its own, so the
  two are kept inside the node.
\<close>

record hnode =
  h_type :: "string option"
  h_attrs :: "string dict"
  h_children :: "nat list"

type_synonym heap = "hnode list"

text \<open>
  \<^verbatim>\<open>Element.Content\<close> and \<^verbatim>\<open>Element.Transformer\<close> with references to nodes.
  A callable reads the store and may allocate: it gives its result, or throws, and the
  nodes it has made.  (A callable that writes to the nodes it is given is not part of
  this model.)
\<close>

datatype hitem = HIStr string | HIEl nat

datatype hcontent = HStr string | HEl nat | HArr "hitem list"

datatype hresult = HBool bool | HContent hcontent

datatype htransformer =
    HTBool bool
  | HTContent hcontent
  | HTFun "nat \<Rightarrow> nat \<Rightarrow> nat list \<Rightarrow> heap \<Rightarrow> hresult option \<times> hnode list"

text \<open>\<^verbatim>\<open>Element(type, attrs, children)\<close> with an array of elements for children\<close>

definition new_Element :: "string option \<Rightarrow> jsval dict \<Rightarrow> nat list \<Rightarrow> heap \<Rightarrow> nat \<times> heap" where
  "new_Element ty ats cs h =
     (length h, h @ [\<lparr>h_type = ty, h_attrs = make_attrs ats [], h_children = cs\<rparr>])"

text \<open>\<^verbatim>\<open>toElement\<close> and \<^verbatim>\<open>input.map(toElement)\<close>: a string becomes a new text node,
  an element is passed on as it is.\<close>

fun toElement_h :: "hitem \<Rightarrow> heap \<Rightarrow> nat \<times> heap" where
  "toElement_h (HIStr content) h = new_Element (Some ''text'') [(''content'', Str content)] [] h"
| "toElement_h (HIEl r) h = (r, h)"

fun map_toElement_h :: "hitem list \<Rightarrow> heap \<Rightarrow> nat list \<times> heap" where
  "map_toElement_h [] h = ([], h)"
| "map_toElement_h (x # xs) h =
     (case toElement_h x h of (r, h1) \<Rightarrow>
        (case map_toElement_h xs h1 of (rs, h2) \<Rightarrow> (r # rs, h2)))"

text \<open>
  \<^verbatim>\<open>toElementArray\<close>, lines 15-21: \<^verbatim>\<open>undefined\<close> for a single element, which
  does not pass \<^verbatim>\<open>isElement\<close> (see \<^const>\<open>isElement\<close>).
\<close>

fun toElementArray_h :: "hcontent \<Rightarrow> heap \<Rightarrow> nat list option \<times> heap" where
  "toElementArray_h (HStr s) h = (case map_toElement_h [HIStr s] h of (rs, h1) \<Rightarrow> (Some rs, h1))"
| "toElementArray_h (HEl r) h = (None, h)"
| "toElementArray_h (HArr input) h = (case map_toElement_h input h of (rs, h1) \<Rightarrow> (Some rs, h1))"

definition hrule_for :: "htransformer dict \<Rightarrow> string option \<Rightarrow> htransformer" where
  "hrule_for rules ty =
     (case dict_get rules (type_key ty) of
        Some r \<Rightarrow> r
      | None \<Rightarrow> (case dict_get rules ''default'' of Some r \<Rightarrow> r | None \<Rightarrow> HTBool True))"

fun call_hrule ::
  "htransformer \<Rightarrow> nat \<Rightarrow> nat \<Rightarrow> nat list \<Rightarrow> heap \<Rightarrow> (error + hresult) \<times> heap" where
  "call_hrule (HTBool b) element index elements h = (Inr (HBool b), h)"
| "call_hrule (HTContent c) element index elements h = (Inr (HContent c), h)"
| "call_hrule (HTFun f) element index elements h =
     (case f element index elements h of
        (None, made) \<Rightarrow> (Inl Thrown, h @ made)
      | (Some r, made) \<Rightarrow> (Inr r, h @ made))"

text \<open>\<^verbatim>\<open>children.push(r)\<close> on the children array of the node at \<open>element\<close>\<close>

definition push_onto :: "nat \<Rightarrow> nat \<Rightarrow> heap \<Rightarrow> heap" where
  "push_onto element r h =
     h[element := (h ! element)\<lparr>h_children := h_children (h ! element) @ [r]\<rparr>]"

text \<open>
  The \<^verbatim>\<open>forEach\<close> of \<^verbatim>\<open>transform\<close>, lines 203-214, on the store.  The
  \<^verbatim>\<open>children\<close> of line 209 is the children array of the element (line 208): the
  rebuilt element is pushed there, and \<open>out\<close>, the array of line 202, receives
  replacement content only.  The \<^verbatim>\<open>forEach\<close> visits the elements the array holds
  when it begins (what is pushed to an array under traversal is not visited).  The
  children of an element are read from the store, which need not hold a tree: the fuel
  bounds the depth of the recursion, and \<^const>\<open>None\<close> stands for a call that runs
  out of it (or meets an address that is not allocated).  An exception leaves the store
  as it is at that point.
\<close>

fun transform_each_h ::
  "nat \<Rightarrow> htransformer dict \<Rightarrow> nat list \<Rightarrow> nat \<Rightarrow> nat list \<Rightarrow> nat list \<Rightarrow> heap
   \<Rightarrow> ((error + nat list) \<times> heap) option" where
  "transform_each_h fuel rules elements index [] out h = Some (Inr out, h)"
| "transform_each_h 0 rules elements index (element # rest) out h = None"
| "transform_each_h (Suc fuel) rules elements index (element # rest) out h =
     (if length h \<le> element then None
      else
        (case call_hrule (hrule_for rules (h_type (h ! element))) element index elements h of
           (Inl e, h1) \<Rightarrow> Some (Inl e, h1)
         | (Inr (HBool True), h1) \<Rightarrow>
             (case transform_each_h fuel rules (h_children (h1 ! element)) 0
                     (h_children (h1 ! element)) [] h1 of
                None \<Rightarrow> None
              | Some (Inl e, h2) \<Rightarrow> Some (Inl e, h2)
              | Some (Inr sub, h2) \<Rightarrow>
                  (case new_Element (h_type (h1 ! element)) (as_any (h_attrs (h1 ! element))) sub h2 of
                     (r, h3) \<Rightarrow>
                       transform_each_h (Suc fuel) rules elements (Suc index) rest out
                         (push_onto element r h3)))
         | (Inr (HBool False), h1) \<Rightarrow>
             transform_each_h (Suc fuel) rules elements (Suc index) rest out h1
         | (Inr (HContent c), h1) \<Rightarrow>
             (case toElementArray_h c h1 of
                (None, h2) \<Rightarrow> Some (Inl TypeError, h2)
              | (Some rs, h2) \<Rightarrow>
                  transform_each_h (Suc fuel) rules elements (Suc index) rest (out @ rs) h2)))"

text \<open>\<^verbatim>\<open>Element.transform(source, rules)\<close> for a forest \<open>source\<close>\<close>

definition transform_h ::
  "nat \<Rightarrow> nat list \<Rightarrow> htransformer dict \<Rightarrow> heap \<Rightarrow> ((error + nat list) \<times> heap) option" where
  "transform_h fuel source rules h = transform_each_h fuel rules source 0 source [] h"

text \<open>The nodes of the tree below a node: the node, its children, their children.\<close>

inductive reach :: "heap \<Rightarrow> nat \<Rightarrow> nat \<Rightarrow> bool" where
  reach_self: "reach h r r"
| reach_child: "r < length h \<Longrightarrow> c \<in> set (h_children (h ! r)) \<Longrightarrow> reach h c r' \<Longrightarrow> reach h r r'"

text \<open>The nodes of a store keep their type and their attrs in a later store.\<close>

definition same_labels :: "heap \<Rightarrow> heap \<Rightarrow> bool" where
  "same_labels h h' =
     (length h \<le> length h' \<and>
      (\<forall>r < length h. h_type (h' ! r) = h_type (h ! r) \<and> h_attrs (h' ! r) = h_attrs (h ! r)))"

text \<open>No rule supplies an element: every value is a boolean, a string or an array of strings.\<close>

fun is_string_item :: "hitem \<Rightarrow> bool" where
  "is_string_item (HIStr s) = True"
| "is_string_item (HIEl r) = False"

fun no_element :: "htransformer \<Rightarrow> bool" where
  "no_element (HTBool b) = True"
| "no_element (HTContent (HStr s)) = True"
| "no_element (HTContent (HEl r)) = False"
| "no_element (HTContent (HArr input)) = list_all is_string_item input"
| "no_element (HTFun f) = False"

definition no_elements :: "htransformer dict \<Rightarrow> bool" where
  "no_elements rules = list_all (\<lambda>kv. no_element (snd kv)) rules"

text \<open>An address allocated between two stores, and the new nodes having new children only.\<close>

definition fresh_in :: "heap \<Rightarrow> heap \<Rightarrow> nat \<Rightarrow> bool" where
  "fresh_in h h' r = (length h \<le> r \<and> r < length h')"

definition closed_new :: "heap \<Rightarrow> heap \<Rightarrow> bool" where
  "closed_new h h' =
     (\<forall>j. fresh_in h h' j \<longrightarrow> (\<forall>c \<in> set (h_children (h' ! j)). fresh_in h h' c))"

section \<open>Forests that parse back\<close>

text \<open>The concatenation of the serializations of a forest.\<close>

definition serialize :: "element list \<Rightarrow> error + string" where
  "serialize forest = join_results (map toString forest)"

text \<open>
  A type that the tokenizer reads back as a tag name: not empty, not the reserved
  \<^verbatim>\<open>text\<close>, without white space and \<^verbatim>\<open>>\<close>, and not starting with a slash.
\<close>

definition name_ok :: "string \<Rightarrow> bool" where
  "name_ok t = (t \<noteq> [] \<and> list_all (\<lambda>c. \<not> is_space c \<and> c \<noteq> CHR ''>'') t)"

definition tag_ok :: "string \<Rightarrow> bool" where
  "tag_ok t = (name_ok t \<and> hd t \<noteq> CHR ''/'' \<and> t \<noteq> ''text'')"

text \<open>
  An attribute whose key comes back: its hyphenated form is not empty, has no white
  space, \<^verbatim>\<open>=\<close> or \<^verbatim>\<open>>\<close>, does not end with a slash, and camelizes to the
  key again.
\<close>

definition key_ok :: "string \<Rightarrow> bool" where
  "key_ok hk =
     (hk \<noteq> [] \<and> list_all (\<lambda>c. \<not> is_space c \<and> c \<noteq> CHR ''='' \<and> c \<noteq> CHR ''>'') hk
      \<and> last hk \<noteq> CHR ''/'')"

definition attr_ok :: "string \<times> string \<Rightarrow> bool" where
  "attr_ok kv = (key_ok (hyphenate (fst kv)) \<and> camelize (hyphenate (fst kv)) = fst kv)"

text \<open>
  What every \<^verbatim>\<open>Dict\<close> is: no key twice, and the keys that are array indices
  first, in ascending order.
\<close>

fun js_ordered :: "string list \<Rightarrow> bool" where
  "js_ordered (k # k' # ks) =
     ((if is_array_index k' then is_array_index k \<and> index_val k < index_val k' else True)
      \<and> js_ordered (k' # ks))"
| "js_ordered ks = True"

definition dict_ok :: "'v dict \<Rightarrow> bool" where
  "dict_ok d = (distinct (map fst d) \<and> js_ordered (map fst d))"

definition attrs_ok :: "string dict \<Rightarrow> bool" where
  "attrs_ok ats = (list_all attr_ok ats \<and> dict_ok ats)"

text \<open>
  A node of a well-formed forest is a text node (type \<^verbatim>\<open>text\<close>, the one attribute
  \<^verbatim>\<open>content\<close>, which is not empty, and no children) or an element with a type
  and attributes as above and at least one attribute or child, whose children are
  well-formed, no two text nodes next to each other.
\<close>

definition is_text :: "element \<Rightarrow> bool" where
  "is_text n = (type n = Some ''text'')"

fun no_adjacent_text :: "element list \<Rightarrow> bool" where
  "no_adjacent_text (n1 # n2 # ns) = (\<not> (is_text n1 \<and> is_text n2) \<and> no_adjacent_text (n2 # ns))"
| "no_adjacent_text ns = True"

fun wf_node :: "element \<Rightarrow> bool" where
  "wf_node (Node ty ats cs) =
     (case ty of
        None \<Rightarrow> False
      | Some t \<Rightarrow>
          if t = ''text'' then
            (case dict_get ats ''content'' of
               Some c \<Rightarrow> c \<noteq> [] \<and> ats = [(''content'', c)]
             | None \<Rightarrow> False) \<and> cs = []
          else tag_ok t \<and> attrs_ok ats \<and> (ats \<noteq> [] \<or> cs \<noteq> [])
               \<and> (\<forall>c \<in> set cs. wf_node c) \<and> no_adjacent_text cs)"

text \<open>
  A text node at the end of the forest is text after the last tag; its content has
  none of \<^verbatim>\<open>&\<close>, \<^verbatim>\<open><\<close> and \<^verbatim>\<open>>\<close> (escaping leaves it as it is).
\<close>

definition last_text_plain :: "element list \<Rightarrow> bool" where
  "last_text_plain forest =
     (forest = [] \<or> \<not> is_text (last forest)
      \<or> (case dict_get (attrs (last forest)) ''content'' of
            Some c \<Rightarrow> escape c False = c
          | None \<Rightarrow> False))"

definition wf_forest :: "element list \<Rightarrow> bool" where
  "wf_forest forest =
     ((\<forall>n \<in> set forest. wf_node n) \<and> no_adjacent_text forest \<and> last_text_plain forest)"

text \<open>
  The text \<^verbatim>\<open>toString\<close> gives for a node of a well-formed forest, and the tokens
  the tokenizer is to read from it.
\<close>

definition attr_value_text :: "string \<Rightarrow> string" where
  "attr_value_text v = (if v = [] then [] else CHR ''='' # dquote # escape v True @ [dquote])"

definition attrs_text :: "string dict \<Rightarrow> string" where
  "attrs_text ats = concat (map attr_string ats)"

definition open_text :: "string \<Rightarrow> string dict \<Rightarrow> string" where
  "open_text t ats = CHR ''<'' # t @ attrs_text ats @ ''>''"

definition self_text :: "string \<Rightarrow> string dict \<Rightarrow> string" where
  "self_text t ats = CHR ''<'' # t @ attrs_text ats @ ''/>''"

definition close_text :: "string \<Rightarrow> string" where
  "close_text t = CHR ''<'' # CHR ''/'' # t @ ''>''"

fun node_text :: "element \<Rightarrow> string" where
  "node_text (Node ty ats cs) =
     (if ty = Some ''text'' then escape (case dict_get ats ''content'' of Some c \<Rightarrow> c | None \<Rightarrow> []) False
      else if cs = [] then self_text (the ty) ats
      else open_text (the ty) ats @ concat (map node_text cs) @ close_text (the ty))"

fun node_toks :: "element \<Rightarrow> tok list" where
  "node_toks (Node ty ats cs) =
     (if ty = Some ''text'' then [TText (case dict_get ats ''content'' of Some c \<Rightarrow> c | None \<Rightarrow> [])]
      else if cs = [] then [TTag (Token (the ty) [] ''/'' ats)]
      else TTag (Token (the ty) [] [] ats) # concat (map node_toks cs)
           @ [TTag (Token (the ty) ''/'' [] [])])"

text \<open>
  The parts of \<^const>\<open>tagRegExp\<close> and \<^const>\<open>attrRegExp\<close> from a position on, and what the
  proofs say of the text they read: the text of the attributes (no \<^verbatim>\<open>>\<close>, a
  space first, neither a space nor a slash last), a text that starts with a tag, and a
  node whose text is read as its tokens whatever follows it (for a text node: a tag,
  or the end of the input).
\<close>

definition rx_close :: rx where
  "rx_close = Seq (Cap 4 (OptG (Chr CHR ''/''))) (Chr CHR ''>'')"

definition rx_tail :: rx where
  "rx_tail = Seq (StarG is_space) rx_close"

definition rx_attrs :: rx where
  "rx_attrs = Seq (Cap 3 (StarL (\<lambda>c. c \<noteq> CHR ''>''))) rx_tail"

definition rx_name :: rx where
  "rx_name = Seq (Cap 2 (PlusG (\<lambda>c. \<not> is_space c \<and> c \<noteq> CHR ''>''))) rx_attrs"

definition rx_value :: rx where
  "rx_value = Seq (Chr CHR ''='') (Seq (Chr dquote) (Seq (Cap 2 (StarG (\<lambda>c. c \<noteq> dquote))) (Chr dquote)))"

definition attrs_text_ok :: "string \<Rightarrow> bool" where
  "attrs_text_ok u =
     (CHR ''>'' \<notin> set u \<and> (u \<noteq> [] \<longrightarrow> is_space (hd u) \<and> \<not> is_space (last u) \<and> last u \<noteq> CHR ''/''))"

definition starts_with_tag :: "string \<Rightarrow> bool" where
  "starts_with_tag s =
     (\<exists>t ats r. name_ok t \<and>
        (tag_ok t \<and> attrs_ok ats \<and> s = open_text t ats @ r
         \<or> tag_ok t \<and> attrs_ok ats \<and> ats \<noteq> [] \<and> s = self_text t ats @ r
         \<or> s = close_text t @ r))"

definition plain_text :: "element \<Rightarrow> bool" where
  "plain_text n =
     (case dict_get (attrs n) ''content'' of Some c \<Rightarrow> escape c False = c | None \<Rightarrow> False)"

definition follows_ok :: "element \<Rightarrow> string \<Rightarrow> bool" where
  "follows_ok n rest = (is_text n \<longrightarrow> rest = [] \<and> plain_text n \<or> starts_with_tag rest)"

definition node_claim :: "element \<Rightarrow> bool" where
  "node_claim n =
     (\<forall>rest. follows_ok n rest \<longrightarrow> tokenize (node_text n @ rest) = node_toks n @ tokenize rest)"


section \<open>Properties of the escaper\<close>

lemma enc_none: "concat (map (enc False False False False) s) = s"
  by (induction s) (auto simp: enc_def)

lemma esc_amp:
  "replaceAll ''&'' ''&amp;'' (concat (map (enc False False False False) s))
   = concat (map (enc True False False False) s)"
  by (induction s) (auto simp: enc_def)

lemma esc_lt:
  "replaceAll ''<'' ''&lt;'' (concat (map (enc True False False False) s))
   = concat (map (enc True True False False) s)"
  by (induction s) (auto simp: enc_def)

lemma esc_gt:
  "replaceAll ''>'' ''&gt;'' (concat (map (enc True True False False) s))
   = concat (map (enc True True True False) s)"
  by (induction s) (auto simp: enc_def)

lemma esc_quot:
  "replaceAll [dquote] ''&quot;'' (concat (map (enc True True True False) s))
   = concat (map (enc True True True True) s)"
  by (induction s) (auto simp: enc_def dquote_def)

lemma escape_enc: "escape s inline = concat (map (enc True True True inline) s)"
  using esc_amp[of s] esc_lt[of s] esc_gt[of s] esc_quot[of s]
  by (simp add: escape_def enc_none Let_def)

lemma unesc_lt:
  "replaceAll ''&lt;'' ''<'' (concat (map (enc True True True q) s))
   = concat (map (enc True False True q) s)"
  by (induction s) (auto simp: enc_def dquote_def)

lemma unesc_gt:
  "replaceAll ''&gt;'' ''>'' (concat (map (enc True False True q) s))
   = concat (map (enc True False False q) s)"
  by (induction s) (auto simp: enc_def dquote_def)

lemma unesc_quot:
  "replaceAll ''&quot;'' [dquote] (concat (map (enc True False False q) s))
   = concat (map (enc True False False False) s)"
  by (induction s) (auto simp: enc_def dquote_def)

lemma unesc_amp:
  "replaceAll ''&amp;'' ''&'' (concat (map (enc True False False False) s))
   = concat (map (enc False False False False) s)"
  by (induction s) (auto simp: enc_def dquote_def)

lemma unescape_enc: "unescape (concat (map (enc True True True q) s)) = s"
  by (simp add: unescape_def unesc_lt unesc_gt unesc_quot unesc_amp enc_none)

text \<open>
  C6: for every string \<open>s\<close> and both values of the inline flag,
  \<open>unescape (escape s inline) = s\<close>.  The proof follows the four replacements of
  \<^const>\<open>unescape\<close> in their order, \<^verbatim>\<open>&lt;\<close>, \<^verbatim>\<open>&gt;\<close>, \<^verbatim>\<open>&quot;\<close> and
  \<^verbatim>\<open>&amp;\<close> last (lemmas \<open>unesc_lt\<close>, \<open>unesc_gt\<close>, \<open>unesc_quot\<close>, \<open>unesc_amp\<close>):
  none of the first three consumes a part of an escaped ampersand.
\<close>

theorem unescape_escape: "unescape (escape s inline) = s"
  by (simp add: escape_enc unescape_enc)

section \<open>Properties of the constructor and of serialization\<close>

text \<open>
  C7: boolean attribute values are normalized by the constructor and serialized as
  flags: \<^verbatim>\<open>Element('a', {disabled: true}).toString()\<close> is \<^verbatim>\<open><a disabled/>\<close>, and
  \<^verbatim>\<open>Element('a', {disabled: false}).toString()\<close> is \<^verbatim>\<open><a no-disabled/>\<close>; the
  attrs of the two elements are \<^verbatim>\<open>{disabled: ''}\<close> and \<^verbatim>\<open>{noDisabled: ''}\<close>.
\<close>

theorem boolean_attrs_serialized_as_flags:
  "attrs (Element (Some ''a'') (Some [(''disabled'', Bool True)]) None) = [(''disabled'', '''')]
   \<and> toString (Element (Some ''a'') (Some [(''disabled'', Bool True)]) None)
       = Inr ''<a disabled/>''
   \<and> attrs (Element (Some ''a'') (Some [(''disabled'', Bool False)]) None) = [(''noDisabled'', '''')]
   \<and> toString (Element (Some ''a'') (Some [(''disabled'', Bool False)]) None)
       = Inr ''<a no-disabled/>''"
  by (simp add: Element_def dict_set_def is_array_index_def is_digit_def attr_string_def
      hyphenate_def uncapitalize_def capitalize_def to_lower_def to_upper_def is_upper_def
      upper_letters_def lower_letters_def)

text \<open>
  C10: serializing a text node whose attrs have no \<^verbatim>\<open>content\<close> key throws (the
  non-inline escaping is applied to \<^verbatim>\<open>undefined\<close>), as for \<^verbatim>\<open>Element('text')\<close>;
  a text node whose \<^verbatim>\<open>content\<close> is a string serializes to the escaped content
  and does not throw.
\<close>

theorem text_node_toString:
  "(dict_get at ''content'' = None \<longrightarrow> toString (Node (Some ''text'') at cs) = Inl TypeError)
   \<and> toString (Element (Some ''text'') None None) = Inl TypeError
   \<and> (\<forall>content. dict_get at ''content'' = Some content \<longrightarrow>
         toString (Node (Some ''text'') at cs) = Inr (escape content False))"
  by (simp add: Element_def dict_get_def)

theorem text_node_toString_witness:
  "dict_get [(''id'', ''1'')] ''content'' = None
   \<and> toString (Node (Some ''text'') [(''id'', ''1'')] []) = Inl TypeError
   \<and> dict_get [(''content'', ''a<b'')] ''content'' = Some ''a<b''
   \<and> toString (Node (Some ''text'') [(''content'', ''a<b'')] []) = Inr ''a&lt;b''"
  using text_node_toString [of "[(''id'', ''1'')]" "[]"]
    text_node_toString [of "[(''content'', ''a<b'')]" "[]"]
  by (simp add: dict_get_def escape_def)

section \<open>Properties of the parser\<close>

text \<open>
  C3: \<open>parse\<close> does not return a forest for every input.  A closing tag with no
  element open removes the root frame from the stack, and the result of the call is a
  TypeError: at the end (\<^verbatim>\<open>stack[stack.length - 1].children\<close> of the empty
  stack, as for \<^verbatim>\<open></a>\<close>) or at the next token that needs the stack
  (\<^verbatim>\<open>stack[0].children\<close>).  The rest of the claim holds: a closing tag pops the
  open element whatever its name, and elements left open keep their content.
\<close>

theorem parse_unmatched_closing_tag_throws:
  "parse ''</a>'' = Inl TypeError
   \<and> parse ''x</a>y'' = Inl TypeError
   \<and> parse ''<a>x</b>y''
       = Inr [Node (Some ''a'') [] [Node (Some ''text'') [(''content'', ''x'')] []],
              Node (Some ''text'') [(''content'', ''y'')] []]
   \<and> parse ''<a><b>x''
       = Inr [Node (Some ''a'') []
               [Node (Some ''b'') [] [Node (Some ''text'') [(''content'', ''x'')] []]]]"
  by code_simp

section \<open>Properties of the transform engine\<close>

text \<open>
  C1: on the source text \<^verbatim>\<open><a/><b/>\<close> with the rules \<^verbatim>\<open>{a: false, default: true}\<close>
  \<open>transform\<close> does not return the one element \<open>b\<close>: it returns the empty forest.
  An element that the rules keep is rebuilt and pushed to \<^verbatim>\<open>children\<close>, which at
  line 209 is the children array of the element itself (declared at line 208), so no
  kept element reaches the array that is returned.  On the forest of the two elements
  \<open>a\<close> and \<open>b\<close> the call returns nothing and leaves \<open>b\<close> with a copy of itself as a
  child.  The source text, besides, does not parse to these two elements: the tag name
  of \<open>tagRegExp\<close>, \<^verbatim>\<open>([^\s>]+)\<close>, takes the slash of \<^verbatim>\<open><a/>\<close>, which gives an
  element of type \<^verbatim>\<open>a/\<close> that is left open and holds an element of type
  \<^verbatim>\<open>b/\<close>.
\<close>

theorem transform_self_closing_source:
  "transform (Inl ''<a/><b/>'') [(''a'', TBool False), (''default'', TBool True)] = Inr []
   \<and> parse ''<a/><b/>'' = Inr [Node (Some ''a/'') [] [Node (Some ''b/'') [] []]]
   \<and> transform (Inr [Element (Some ''a'') None None, Element (Some ''b'') None None])
         [(''a'', TBool False), (''default'', TBool True)]
       = Inr []
   \<and> transform_leaves [Element (Some ''a'') None None, Element (Some ''b'') None None]
         [(''a'', TBool False), (''default'', TBool True)]
       = [Node (Some ''a'') [] [], Node (Some ''b'') [] [Node (Some ''b'') [] []]]"
  by code_simp

text \<open>
  The same on every forest: when the values of the rules are booleans, \<open>transform\<close>
  returns the empty forest, whatever the rules keep.
\<close>

lemma rule_for_in:
  "list_all (\<lambda>kv. P (snd kv)) rules \<Longrightarrow> P (TBool True) \<Longrightarrow> P (rule_for rules ty)"
proof -
  assume a: "list_all (\<lambda>kv. P (snd kv)) rules" and b: "P (TBool True)"
  have "\<And>k r. dict_get rules k = Some r \<Longrightarrow> P r"
    using a by (auto simp: dict_get_def list_all_iff dest!: map_of_SomeD)
  with b show ?thesis by (auto simp: rule_for_def split: option.splits)
qed

lemma transform_each_booleans:
  "boolean_rules rules \<Longrightarrow> fst (transform_each rules prev rest out) = Inr out"
proof (induction rules prev rest out rule: transform_each.induct)
  case (1 rules prev out)
  then show ?case by simp
next
  case (2 rules prev ty ats cs rest out)
  have "is_boolean (rule_for rules ty)"
    using "2.prems" unfolding boolean_rules_def by (rule rule_for_in) simp
  then obtain b where b: "rule_for rules ty = TBool b" by (cases "rule_for rules ty") auto
  show ?case
  proof (cases b)
    case True
    obtain r1 cs1 where rec: "transform_each rules [] cs [] = (r1, cs1)" by force
    have "fst (transform_each rules [] cs []) = Inr []"
      using "2.IH"(1)[OF _ _ _ "2.prems"] b True by simp
    with rec have r1: "r1 = Inr []" by simp
    show ?thesis
      using "2.IH"(2)[OF _ _ _ _ _ "2.prems"] b True rec r1 by simp
  next
    case False
    show ?thesis
      using "2.IH"(3)[OF _ _ _ "2.prems"] b False by simp
  qed
qed

lemma transform_booleans_returns_nothing:
  "boolean_rules rules \<Longrightarrow> transform (Inr forest) rules = Inr []"
  by (simp add: transform_def transform_each_booleans)

text \<open>
  C4: \<open>transformAsync\<close> does not resolve to the forest that \<open>transform\<close> returns.
  On the one element \<open>a\<close> with no rule at all (every element is kept),
  \<open>transformAsync\<close> resolves to the rebuilt element (line 227 returns it) and
  \<open>transform\<close> returns the empty forest (line 209 pushes it to the children of
  \<open>a\<close>).  With a single element for a rule, \<^verbatim>\<open>{a: Element('b')}\<close>,
  \<^const>\<open>toElementArray\<close> returns \<^verbatim>\<open>undefined\<close>, since nothing passes
  \<^const>\<open>isElement\<close>: \<open>transform\<close> throws a \<^verbatim>\<open>TypeError\<close> on spreading it
  (line 211), \<open>transformAsync\<close> resolves to an array that holds it (line 229).
\<close>

theorem transformAsync_differs_from_transform:
  "transform (Inr [Element (Some ''a'') None None]) [] = Inr []
   \<and> transformAsync (Inr [Element (Some ''a'') None None]) [] = Inr (Some [Node (Some ''a'') [] []])
   \<and> transform (Inr [Element (Some ''a'') None None])
        [(''a'', TContent (CEl (Element (Some ''b'') None None)))] = Inl TypeError
   \<and> transformAsync (Inr [Element (Some ''a'') None None])
        [(''a'', TContent (CEl (Element (Some ''b'') None None)))] = Inr None"
  by code_simp

section \<open>Properties of the query engine\<close>

text \<open>
  C8: on the forest parsed from \<^verbatim>\<open><a><b><c/></b></a>\<close> the query \<^verbatim>\<open>a c\<close> does
  not return the element \<open>c\<close>: the innermost element is parsed with the type
  \<^verbatim>\<open>c/\<close> (the tag name of \<open>tagRegExp\<close> takes the slash), so both queries return
  the empty list.  On the forest of \<open>a\<close>, \<open>b\<close> and \<open>c\<close> itself the query
  \<^verbatim>\<open>a c\<close> returns \<open>c\<close> and \<^verbatim>\<open>a > c\<close> returns nothing.
\<close>

theorem select_descendant_and_child:
  "parse ''<a><b><c/></b></a>''
     = Inr [Node (Some ''a'') [] [Node (Some ''b'') [] [Node (Some ''c/'') [] []]]]
   \<and> select (Inl ''<a><b><c/></b></a>'') ''a c'' = Inr []
   \<and> select (Inl ''<a><b><c/></b></a>'') ''a > c'' = Inr []
   \<and> select (Inr [Node (Some ''a'') [] [Node (Some ''b'') [] [Node (Some ''c'') [] []]]]) ''a c''
       = Inr [Node (Some ''c'') [] []]
   \<and> select (Inr [Node (Some ''a'') [] [Node (Some ''b'') [] [Node (Some ''c'') [] []]]]) ''a > c''
       = Inr []"
  by code_simp

text \<open>
  C9: on the forest parsed from \<^verbatim>\<open><a/><b/><c/>\<close> the query \<^verbatim>\<open>a + b\<close> does not
  return the element \<open>b\<close>: the text parses to the nested elements \<^verbatim>\<open>a/\<close>,
  \<^verbatim>\<open>b/\<close> and \<^verbatim>\<open>c/\<close>, and both queries return the empty list.  On the
  three siblings \<open>a\<close>, \<open>b\<close> and \<open>c\<close> themselves \<^verbatim>\<open>a + b\<close> returns \<open>b\<close> and
  \<^verbatim>\<open>a + c\<close> returns nothing.
\<close>

theorem select_adjacent_sibling:
  "parse ''<a/><b/><c/>''
     = Inr [Node (Some ''a/'') [] [Node (Some ''b/'') [] [Node (Some ''c/'') [] []]]]
   \<and> select (Inl ''<a/><b/><c/>'') ''a + b'' = Inr []
   \<and> select (Inl ''<a/><b/><c/>'') ''a + c'' = Inr []
   \<and> select (Inr [Node (Some ''a'') [] [], Node (Some ''b'') [] [], Node (Some ''c'') [] []]) ''a + b''
       = Inr [Node (Some ''b'') [] []]
   \<and> select (Inr [Node (Some ''a'') [] [], Node (Some ''b'') [] [], Node (Some ''c'') [] []]) ''a + c''
       = Inr []"
  by code_simp

section \<open>Properties of the transform engine on a store\<close>

lemma hrule_for_in:
  "list_all (\<lambda>kv. P (snd kv)) rules \<Longrightarrow> P (HTBool True) \<Longrightarrow> P (hrule_for rules ty)"
proof -
  assume a: "list_all (\<lambda>kv. P (snd kv)) rules" and b: "P (HTBool True)"
  have "\<And>k r. dict_get rules k = Some r \<Longrightarrow> P r"
    using a by (auto simp: dict_get_def list_all_iff dest!: map_of_SomeD)
  with b show ?thesis by (auto simp: hrule_for_def split: option.splits)
qed

lemma same_labels_refl: "same_labels h h"
  by (simp add: same_labels_def)

lemma same_labels_trans: "same_labels h h1 \<Longrightarrow> same_labels h1 h2 \<Longrightarrow> same_labels h h2"
  by (simp add: same_labels_def)

lemma same_labels_append: "same_labels h (h @ made)"
  by (simp add: same_labels_def nth_append)

lemma nth_push_onto:
  "j < length h \<Longrightarrow>
   push_onto element r h ! j =
     (if j = element then (h ! j)\<lparr>h_children := h_children (h ! j) @ [r]\<rparr> else h ! j)"
  by (simp add: push_onto_def)

lemma length_push_onto: "length (push_onto element r h) = length h"
  by (simp add: push_onto_def)

lemma same_labels_push: "same_labels h (push_onto element r h)"
  by (simp add: same_labels_def nth_push_onto length_push_onto)

lemma call_hrule_labels: "call_hrule t el i els h = (res, h1) \<Longrightarrow> same_labels h h1"
  by (cases t) (auto simp: same_labels_refl same_labels_append split: prod.splits option.splits)

lemma map_toElement_h_labels: "map_toElement_h xs h = (rs, h') \<Longrightarrow> same_labels h h'"
proof (induction xs arbitrary: h rs h')
  case Nil then show ?case by (simp add: same_labels_refl)
next
  case (Cons x xs)
  obtain r h1 where a: "toElement_h x h = (r, h1)" by force
  obtain rs' h2 where b: "map_toElement_h xs h1 = (rs', h2)" by force
  from a have "same_labels h h1"
    by (cases x) (auto simp: new_Element_def same_labels_append same_labels_refl)
  moreover from Cons.IH[OF b] have "same_labels h1 h2" .
  moreover from Cons.prems a b have "h' = h2" by simp
  ultimately show ?case by (auto intro: same_labels_trans)
qed

lemma toElementArray_h_labels: "toElementArray_h c h = (rs, h') \<Longrightarrow> same_labels h h'"
  by (cases c) (auto dest: map_toElement_h_labels simp: same_labels_refl
                     simp del: map_toElement_h.simps split: prod.splits)

lemma transform_each_h_labels:
  "transform_each_h fuel rules elements index rest out h = Some (res, h') \<Longrightarrow> same_labels h h'"
proof (induction fuel rules elements index rest out h arbitrary: res h'
       rule: transform_each_h.induct)
  case (1 fuel rules elements index out h)
  then show ?case by (simp add: same_labels_refl)
next
  case (2 rules elements index element rest out h)
  then show ?case by simp
next
  case (3 fuel rules elements index element rest out h)
  from "3.prems"(1) have v: "element < length h" by (simp split: if_splits)
  obtain cr h1 where call:
    "call_hrule (hrule_for rules (h_type (h ! element))) element index elements h = (cr, h1)"
    by force
  from call_hrule_labels[OF call] have p1: "same_labels h h1" .
  show ?case
  proof (cases cr)
    case (Inl e)
    with "3.prems"(1) v call p1 show ?thesis by simp
  next
    case (Inr r)
    show ?thesis
    proof (cases r)
      case (HBool b)
      show ?thesis
      proof (cases b)
        case True
        let ?cs = "h_children (h1 ! element)"
        from "3.prems"(1) v call Inr HBool True
        obtain cr2 h2 where rec: "transform_each_h fuel rules ?cs 0 ?cs [] h1 = Some (cr2, h2)"
          by (auto split: option.splits)
        have p2: "same_labels h1 h2"
          using "3.IH"(1)[OF _ call[symmetric] _ _ _ rec] v Inr HBool True
          by simp
        show ?thesis
        proof (cases cr2)
          case inl: (Inl e)
          with "3.prems"(1) v call Inr HBool True rec p1 p2 show ?thesis
            by (auto intro: same_labels_trans)
        next
          case inr: (Inr sub)
          obtain r3 h3 where ne:
            "new_Element (h_type (h1 ! element)) (as_any (h_attrs (h1 ! element))) sub h2 = (r3, h3)"
            by force
          then have p3: "same_labels h2 h3" by (auto simp: new_Element_def same_labels_append)
          have p4: "same_labels h3 (push_onto element r3 h3)" by (rule same_labels_push)
          from "3.prems"(1) v call Inr HBool True rec inr ne
          have cont: "transform_each_h (Suc fuel) rules elements (Suc index) rest out
                        (push_onto element r3 h3) = Some (res, h')" by simp
          have "same_labels (push_onto element r3 h3) h'"
            using "3.IH"(2)[OF _ call[symmetric] _ _ _ rec _ _ ne[symmetric] cont]
              v Inr HBool True inr by simp
          with p1 p2 p3 p4 show ?thesis by (blast intro: same_labels_trans)
        qed
      next
        case False
        from "3.prems"(1) v call Inr HBool False
        have cont: "transform_each_h (Suc fuel) rules elements (Suc index) rest out h1 = Some (res, h')"
          by simp
        have "same_labels h1 h'"
          using "3.IH"(3)[OF _ call[symmetric] _ _ _ cont] v Inr HBool False by simp
        with p1 show ?thesis by (auto intro: same_labels_trans)
      qed
    next
      case (HContent c)
      obtain rs h2 where te: "toElementArray_h c h1 = (rs, h2)" by force
      from toElementArray_h_labels[OF te] have p2: "same_labels h1 h2" .
      show ?thesis
      proof (cases rs)
        case None
        with "3.prems"(1) v call Inr HContent te p1 p2 show ?thesis
          by (auto intro: same_labels_trans)
      next
        case (Some rs')
        from "3.prems"(1) v call Inr HContent te Some
        have cont: "transform_each_h (Suc fuel) rules elements (Suc index) rest (out @ rs') h2 = Some (res, h')"
          by simp
        have "same_labels h2 h'"
          using "3.IH"(4)[OF _ call[symmetric] _ _ te[symmetric] _ cont] v Inr HContent Some by simp
        with p1 p2 show ?thesis by (auto intro: same_labels_trans)
      qed
    qed
  qed
qed


lemma closed_newD:
  "closed_new h h' \<Longrightarrow> fresh_in h h' j \<Longrightarrow> c \<in> set (h_children (h' ! j)) \<Longrightarrow> fresh_in h h' c"
  unfolding closed_new_def by blast

lemma closed_new_refl: "closed_new h h"
  unfolding closed_new_def fresh_in_def by simp

lemma closed_new_snoc:
  assumes "closed_new h h2" "length h \<le> length h2" "\<forall>c \<in> set (h_children n). fresh_in h h2 c"
  shows "closed_new h (h2 @ [n])"
  unfolding closed_new_def
proof (intro allI impI ballI)
  fix j c
  assume j: "fresh_in h (h2 @ [n]) j" and c: "c \<in> set (h_children ((h2 @ [n]) ! j))"
  have "fresh_in h h2 c"
  proof (cases "j < length h2")
    case True
    with c have c1: "c \<in> set (h_children (h2 ! j))" by (simp add: nth_append)
    from j True have "fresh_in h h2 j" unfolding fresh_in_def by simp
    from closed_newD[OF assms(1) this c1] show ?thesis .
  next
    case False
    with j have "j = length h2" unfolding fresh_in_def by simp
    with c have "c \<in> set (h_children n)" by simp
    with assms(3) show ?thesis by blast
  qed
  then show "fresh_in h (h2 @ [n]) c" unfolding fresh_in_def by simp
qed

lemma closed_new_push:
  assumes "closed_new h0 h" "fresh_in h0 h r"
  shows "closed_new h0 (push_onto element r h)"
  unfolding closed_new_def
proof (intro allI impI ballI)
  fix j c
  assume j: "fresh_in h0 (push_onto element r h) j"
    and c: "c \<in> set (h_children (push_onto element r h ! j))"
  from j have j': "fresh_in h0 h j" by (simp add: fresh_in_def length_push_onto)
  then have jl: "j < length h" by (simp add: fresh_in_def)
  have "fresh_in h0 h c"
  proof (cases "j = element")
    case True
    with c jl have "c \<in> set (h_children (h ! j)) \<or> c = r" by (auto simp: nth_push_onto)
    then show ?thesis
    proof
      assume "c \<in> set (h_children (h ! j))"
      from closed_newD[OF assms(1) j' this] show ?thesis .
    next
      assume "c = r"
      with assms(2) show ?thesis by simp
    qed
  next
    case False
    with c jl have "c \<in> set (h_children (h ! j))" by (simp add: nth_push_onto)
    from closed_newD[OF assms(1) j' this] show ?thesis .
  qed
  then show "fresh_in h0 (push_onto element r h) c" by (simp add: fresh_in_def length_push_onto)
qed

lemma map_toElement_h_strings:
  "map_toElement_h xs h = (rs, h') \<Longrightarrow> list_all is_string_item xs \<Longrightarrow>
   length h0 \<le> length h \<Longrightarrow> closed_new h0 h \<Longrightarrow>
     length h \<le> length h' \<and> closed_new h0 h' \<and> (\<forall>r \<in> set rs. fresh_in h h' r)"
proof (induction xs arbitrary: h rs h')
  case Nil
  then show ?case by simp
next
  case (Cons x xs)
  from Cons.prems(2) obtain s where x: "x = HIStr s" by (cases x) auto
  let ?n = "\<lparr>h_type = Some ''text'', h_attrs = make_attrs [(''content'', Str s)] [],
             h_children = []\<rparr>"
  let ?h1 = "h @ [?n]"
  obtain rs' h2 where b: "map_toElement_h xs ?h1 = (rs', h2)" by force
  from Cons.prems(1) x b have eq: "rs = length h # rs'" "h' = h2"
    by (auto simp: new_Element_def)
  have c1: "closed_new h0 ?h1"
    by (rule closed_new_snoc[OF Cons.prems(4) Cons.prems(3)]) simp
  from Cons.prems(3) have l1: "length h0 \<le> length ?h1" by simp
  from Cons.IH[OF b _ l1 c1] Cons.prems(2)
  have ih: "length ?h1 \<le> length h2" "closed_new h0 h2" "\<forall>r \<in> set rs'. fresh_in ?h1 h2 r"
    by auto
  from ih(1) have len: "length h < length h2" by simp
  from ih(3) have "\<forall>r \<in> set rs'. fresh_in h h2 r" by (auto simp: fresh_in_def)
  with len show ?case unfolding eq using ih(2) by (simp add: fresh_in_def)
qed

lemma toElementArray_h_strings:
  assumes "toElementArray_h c h = (rs, h')" "no_element (HTContent c)"
    "length h0 \<le> length h" "closed_new h0 h"
  shows "length h \<le> length h' \<and> closed_new h0 h' \<and>
         (\<exists>rs'. rs = Some rs' \<and> (\<forall>r \<in> set rs'. fresh_in h h' r))"
proof (cases c)
  case (HStr s)
  obtain rs' h1 where m: "map_toElement_h [HIStr s] h = (rs', h1)" by force
  from assms(1) HStr m have eq: "rs = Some rs'" "h' = h1" by (auto simp del: map_toElement_h.simps)
  from map_toElement_h_strings[OF m _ assms(3,4)] show ?thesis unfolding eq by simp
next
  case (HEl r)
  with assms(2) show ?thesis by simp
next
  case (HArr input)
  obtain rs' h1 where m: "map_toElement_h input h = (rs', h1)" by force
  from assms(1) HArr m have eq: "rs = Some rs'" "h' = h1" by (auto simp del: map_toElement_h.simps)
  from assms(2) HArr have "list_all is_string_item input" by simp
  from map_toElement_h_strings[OF m this assms(3,4)] show ?thesis unfolding eq by simp
qed

lemma call_hrule_no_element:
  "no_element t \<Longrightarrow> call_hrule t el i els h = (cr, h1) \<Longrightarrow>
     h1 = h \<and> (\<exists>r. cr = Inr r \<and> (\<forall>c. r = HContent c \<longrightarrow> no_element (HTContent c)))"
  by (cases t) auto

lemma transform_each_h_fresh:
  "transform_each_h fuel rules elements index rest out h = Some (res, h') \<Longrightarrow>
   no_elements rules \<Longrightarrow> length h0 \<le> length h \<Longrightarrow> closed_new h0 h \<Longrightarrow>
   \<forall>r \<in> set out. fresh_in h0 h r \<Longrightarrow>
     length h \<le> length h' \<and> closed_new h0 h' \<and>
     (\<forall>out'. res = Inr out' \<longrightarrow> (\<forall>r \<in> set out'. fresh_in h0 h' r))"
proof (induction fuel rules elements index rest out h arbitrary: res h'
       rule: transform_each_h.induct)
  case (1 fuel rules elements index out h)
  then show ?case by auto
next
  case (2 rules elements index element rest out h)
  then show ?case by simp
next
  case (3 fuel rules elements index element rest out h)
  note run = "3.prems"(1) and ne = "3.prems"(2) and l0 = "3.prems"(3)
    and cl = "3.prems"(4) and fo = "3.prems"(5)
  from run have v: "element < length h" by (simp split: if_splits)
  obtain cr h1 where call:
    "call_hrule (hrule_for rules (h_type (h ! element))) element index elements h = (cr, h1)"
    by force
  have "no_element (hrule_for rules (h_type (h ! element)))"
    using ne unfolding no_elements_def by (rule hrule_for_in) simp
  from call_hrule_no_element[OF this call]
  obtain r where h1: "h1 = h" and cr: "cr = Inr r"
    and rc: "\<And>c. r = HContent c \<Longrightarrow> no_element (HTContent c)" by blast
  show ?case
  proof (cases r)
    case (HBool b)
    show ?thesis
    proof (cases b)
      case True
      let ?cs = "h_children (h ! element)"
      from run v call cr h1 HBool True
      obtain cr2 h2 where rec: "transform_each_h fuel rules ?cs 0 ?cs [] h = Some (cr2, h2)"
        by (auto split: option.splits)
      from rec h1 have rec': "transform_each_h fuel rules (h_children (h1 ! element)) 0
          (h_children (h1 ! element)) [] h1 = Some (cr2, h2)" by simp
      have ih1: "length h \<le> length h2 \<and> closed_new h0 h2 \<and>
                 (\<forall>out'. cr2 = Inr out' \<longrightarrow> (\<forall>r \<in> set out'. fresh_in h0 h2 r))"
        using "3.IH"(1)[OF _ call[symmetric] _ _ _ rec' ne] v cr HBool True h1 l0 cl by simp
      show ?thesis
      proof (cases cr2)
        case (Inl e)
        with run v call cr h1 HBool True rec ih1 show ?thesis by auto
      next
        case (Inr sub)
        let ?n = "\<lparr>h_type = h_type (h ! element),
                   h_attrs = make_attrs (as_any (h_attrs (h ! element))) [],
                   h_children = sub\<rparr>"
        let ?h3 = "h2 @ [?n]"
        have nel: "new_Element (h_type (h1 ! element)) (as_any (h_attrs (h1 ! element))) sub h2
                   = (length h2, ?h3)" by (simp add: new_Element_def h1)
        let ?h4 = "push_onto element (length h2) ?h3"
        from run v call cr h1 HBool True rec Inr
        have cont: "transform_each_h (Suc fuel) rules elements (Suc index) rest out ?h4
                      = Some (res, h')" by (simp add: new_Element_def)
        from ih1 Inr have sub: "\<forall>c \<in> set sub. fresh_in h0 h2 c" by simp
        from ih1 l0 have l2: "length h0 \<le> length h2" by simp
        have c3: "closed_new h0 ?h3"
          by (rule closed_new_snoc) (use ih1 l2 sub in auto)
        have f3: "fresh_in h0 ?h3 (length h2)" using l2 by (simp add: fresh_in_def)
        have c4: "closed_new h0 ?h4" by (rule closed_new_push[OF c3 f3])
        have l4: "length h0 \<le> length ?h4" using l2 by (simp add: length_push_onto)
        have fo4: "\<forall>r \<in> set out. fresh_in h0 ?h4 r"
          using fo ih1 by (auto simp: fresh_in_def length_push_onto)
        have "length ?h4 \<le> length h' \<and> closed_new h0 h' \<and>
              (\<forall>out'. res = Inr out' \<longrightarrow> (\<forall>r \<in> set out'. fresh_in h0 h' r))"
          using "3.IH"(2)[OF _ call[symmetric] _ _ _ rec' _ _ nel[symmetric] cont ne l4 c4 fo4]
            v cr HBool True Inr by simp
        with ih1 show ?thesis by (simp add: length_push_onto)
      qed
    next
      case False
      from run v call cr h1 HBool False
      have cont: "transform_each_h (Suc fuel) rules elements (Suc index) rest out h1 = Some (res, h')"
        by simp
      show ?thesis
        using "3.IH"(3)[OF _ call[symmetric] _ _ _ cont ne] v cr HBool False h1 l0 cl fo by simp
    qed
  next
    case (HContent c)
    obtain rs h2 where te: "toElementArray_h c h = (rs, h2)" by force
    from toElementArray_h_strings[OF te rc[OF HContent] l0 cl]
    obtain rs' where t: "length h \<le> length h2" "closed_new h0 h2" "rs = Some rs'"
      "\<forall>r \<in> set rs'. fresh_in h h2 r" by blast
    from te h1 have te': "(rs, h2) = toElementArray_h c h1" by simp
    from run v call cr h1 HContent te t(3)
    have cont: "transform_each_h (Suc fuel) rules elements (Suc index) rest (out @ rs') h2
                  = Some (res, h')" by simp
    from t(1) l0 have l2: "length h0 \<le> length h2" by simp
    have fo2: "\<forall>r \<in> set (out @ rs'). fresh_in h0 h2 r"
      using fo t(1,4) l0 by (auto simp: fresh_in_def)
    have "length h2 \<le> length h' \<and> closed_new h0 h' \<and>
          (\<forall>out'. res = Inr out' \<longrightarrow> (\<forall>r \<in> set out'. fresh_in h0 h' r))"
      using "3.IH"(4)[OF _ call[symmetric] _ _ te' t(3) cont ne l2 t(2) fo2] v cr HContent by simp
    with t(1) show ?thesis by simp
  qed
qed

lemma reach_fresh:
  "reach h' r r' \<Longrightarrow> closed_new h h' \<Longrightarrow> fresh_in h h' r \<Longrightarrow> fresh_in h h' r'"
proof (induction rule: reach.induct)
  case (reach_self h' r)
  then show ?case by simp
next
  case (reach_child r h' c r')
  from closed_newD[OF reach_child.prems(1) reach_child.prems(2) reach_child.hyps(2)]
  have "fresh_in h h' c" .
  from reach_child.IH[OF reach_child.prems(1) this] show ?case .
qed

text \<open>
  C2 (as amended): a call of \<open>transform\<close> on a forest leaves the type and the attrs
  of every node that existed before the call as they were.  When no rule supplies an
  element (the values are booleans, strings or arrays of strings), every node of the
  returned forest, at any depth, is allocated by the call.  Elements supplied by a
  rule, in a literal array or by a callable, are put into the result by reference.
\<close>

theorem transform_h_frame:
  assumes "transform_h fuel source rules h = Some (res, h')"
  shows "same_labels h h' \<and>
         (no_elements rules \<longrightarrow>
            (\<forall>out r r'. res = Inr out \<and> r \<in> set out \<and> reach h' r r'
               \<longrightarrow> length h \<le> r' \<and> r' < length h'))"
proof (intro conjI impI allI)
  from assms show "same_labels h h'"
    unfolding transform_h_def by (rule transform_each_h_labels)
next
  fix out r r'
  assume ne: "no_elements rules" and a: "res = Inr out \<and> r \<in> set out \<and> reach h' r r'"
  from assms have run: "transform_each_h fuel rules source 0 source [] h = Some (res, h')"
    by (simp add: transform_h_def)
  from transform_each_h_fresh[OF run ne order_refl closed_new_refl] a
  have c: "closed_new h h'" and f: "fresh_in h h' r" by auto
  from a have "reach h' r r'" by simp
  from reach_fresh[OF this c f] show "length h \<le> r'" "r' < length h'"
    by (simp_all add: fresh_in_def)
qed

theorem transform_h_frame_witness:
  "transform_h 5 [0, 2] [(''a'', HTContent (HStr ''x'')), (''default'', HTBool True)]
     [\<lparr>h_type = Some ''a'', h_attrs = [], h_children = []\<rparr>,
      \<lparr>h_type = Some ''c'', h_attrs = [], h_children = []\<rparr>,
      \<lparr>h_type = Some ''b'', h_attrs = [(''k'', ''v'')], h_children = [1]\<rparr>]
   = Some (Inr [3],
     [\<lparr>h_type = Some ''a'', h_attrs = [], h_children = []\<rparr>,
      \<lparr>h_type = Some ''c'', h_attrs = [], h_children = [4]\<rparr>,
      \<lparr>h_type = Some ''b'', h_attrs = [(''k'', ''v'')], h_children = [1, 5]\<rparr>,
      \<lparr>h_type = Some ''text'', h_attrs = [(''content'', ''x'')], h_children = []\<rparr>,
      \<lparr>h_type = Some ''c'', h_attrs = [], h_children = []\<rparr>,
      \<lparr>h_type = Some ''b'', h_attrs = [(''k'', ''v'')], h_children = []\<rparr>])
   \<and> no_elements [(''a'', HTContent (HStr ''x'')), (''default'', HTBool True)]
   \<and> same_labels
     [\<lparr>h_type = Some ''a'', h_attrs = [], h_children = []\<rparr>,
      \<lparr>h_type = Some ''c'', h_attrs = [], h_children = []\<rparr>,
      \<lparr>h_type = Some ''b'', h_attrs = [(''k'', ''v'')], h_children = [1]\<rparr>]
     [\<lparr>h_type = Some ''a'', h_attrs = [], h_children = []\<rparr>,
      \<lparr>h_type = Some ''c'', h_attrs = [], h_children = [4]\<rparr>,
      \<lparr>h_type = Some ''b'', h_attrs = [(''k'', ''v'')], h_children = [1, 5]\<rparr>,
      \<lparr>h_type = Some ''text'', h_attrs = [(''content'', ''x'')], h_children = []\<rparr>,
      \<lparr>h_type = Some ''c'', h_attrs = [], h_children = []\<rparr>,
      \<lparr>h_type = Some ''b'', h_attrs = [(''k'', ''v'')], h_children = []\<rparr>]"
proof -
  let ?rules = "[(''a'', HTContent (HStr ''x'')), (''default'', HTBool True)]"
  let ?h = "[\<lparr>h_type = Some ''a'', h_attrs = [], h_children = []\<rparr>,
      \<lparr>h_type = Some ''c'', h_attrs = [], h_children = []\<rparr>,
      \<lparr>h_type = Some ''b'', h_attrs = [(''k'', ''v'')], h_children = [1::nat]\<rparr>]"
  let ?h' = "[\<lparr>h_type = Some ''a'', h_attrs = [], h_children = []\<rparr>,
      \<lparr>h_type = Some ''c'', h_attrs = [], h_children = [4::nat]\<rparr>,
      \<lparr>h_type = Some ''b'', h_attrs = [(''k'', ''v'')], h_children = [1, 5]\<rparr>,
      \<lparr>h_type = Some ''text'', h_attrs = [(''content'', ''x'')], h_children = []\<rparr>,
      \<lparr>h_type = Some ''c'', h_attrs = [], h_children = []\<rparr>,
      \<lparr>h_type = Some ''b'', h_attrs = [(''k'', ''v'')], h_children = []\<rparr>]"
  have e: "transform_h 5 [0, 2] ?rules ?h = Some (Inr [3], ?h')" by code_simp
  have n: "no_elements ?rules" by (simp add: no_elements_def)
  from transform_h_frame[OF e] have "same_labels ?h ?h'" by blast
  with e n show ?thesis by blast
qed

text \<open>
  C2 as stated fails: with the literal rule \<^verbatim>\<open>{c: [node]}\<close> the forest returned
  holds \<^verbatim>\<open>node\<close> itself, here the node of the input.
\<close>

theorem transform_h_shares_input_node:
  "transform_h 1 [0] [(''c'', HTContent (HArr [HIEl 0]))]
     [\<lparr>h_type = Some ''c'', h_attrs = [], h_children = []\<rparr>]
   = Some (Inr [0], [\<lparr>h_type = Some ''c'', h_attrs = [], h_children = []\<rparr>])"
  by code_simp

text \<open>
  So it is with what a callable returns: with the rule
  \<^verbatim>\<open>{b: (element) => element.children}\<close> the forest returned for an element \<open>b\<close>
  with the child \<open>c\<close> holds that very child.
\<close>

lemma transform_h_shares_returned_children:
  "transform_h 2 [1]
     [(''b'', HTFun (\<lambda>element index elements h.
                (Some (HContent (HArr (map HIEl (h_children (h ! element))))), [])))]
     [\<lparr>h_type = Some ''c'', h_attrs = [], h_children = []\<rparr>,
      \<lparr>h_type = Some ''b'', h_attrs = [], h_children = [0]\<rparr>]
   = Some (Inr [0],
     [\<lparr>h_type = Some ''c'', h_attrs = [], h_children = []\<rparr>,
      \<lparr>h_type = Some ''b'', h_attrs = [], h_children = [0]\<rparr>])"
  by code_simp

text \<open>
  The children of the nodes are left out of the frame above: line 209 pushes the
  rebuilt element to the children of the element it is rebuilt from.  With no rule at
  all, the call on the one element \<open>a\<close> returns the empty forest and leaves \<open>a\<close> with
  its copy for a child.
\<close>

lemma transform_h_pushes_to_element:
  "transform_h 2 [0] [] [\<lparr>h_type = Some ''a'', h_attrs = [], h_children = []\<rparr>]
   = Some (Inr [],
       [\<lparr>h_type = Some ''a'', h_attrs = [], h_children = [1]\<rparr>,
        \<lparr>h_type = Some ''a'', h_attrs = [], h_children = []\<rparr>])"
  by code_simp

section \<open>Properties of the round trip\<close>

lemma m_StarG_stop:
  "s = [] \<or> \<not> p (hd s) \<Longrightarrow> m (StarG p) k c s = k c s"
  by (cases s) auto

lemma m_StarG_greedy:
  "list_all p xs \<Longrightarrow> s = [] \<or> \<not> p (hd s) \<Longrightarrow> k c s = Some res \<Longrightarrow>
     m (StarG p) k c (xs @ s) = Some res"
  by (induction xs) (auto simp: m_StarG_stop)

lemma m_PlusG_greedy:
  "xs \<noteq> [] \<Longrightarrow> list_all p xs \<Longrightarrow> s = [] \<or> \<not> p (hd s) \<Longrightarrow> k c s = Some res \<Longrightarrow>
     m (PlusG p) k c (xs @ s) = Some res"
  by (cases xs) (auto simp: m_StarG_greedy)

lemma m_StarL_hit: "k c s = Some res \<Longrightarrow> m (StarL p) k c s = Some res"
  by (cases s) auto

lemma m_StarL_lazy:
  "list_all p xs \<Longrightarrow> (\<forall>i < length xs. k c (drop i xs @ s) = None) \<Longrightarrow> k c s = Some res \<Longrightarrow>
     m (StarL p) k c (xs @ s) = Some res"
proof (induction xs)
  case Nil
  then show ?case by (simp add: m_StarL_hit)
next
  case (Cons x xs)
  from Cons.prems(2) have "k c (drop 0 (x # xs) @ s) = None" by blast
  then have f: "k c (x # xs @ s) = None" by simp
  have "\<forall>i < length xs. k c (drop i xs @ s) = None"
  proof (intro allI impI)
    fix i assume "i < length xs"
    then have "Suc i < length (x # xs)" by simp
    from Cons.prems(2)[rule_format, OF this] show "k c (drop i xs @ s) = None" by simp
  qed
  from Cons.IH[OF _ this Cons.prems(3)] Cons.prems(1) f show ?case by simp
qed

lemma tagRegExp_pieces:
  "tagRegExp = Seq (Chr CHR ''<'') (Seq (Cap 1 (OptG (Chr CHR ''/''))) (Seq (StarG is_space) rx_name))"
  by (simp add: tagRegExp_def rx_name_def rx_attrs_def rx_tail_def rx_close_def)

lemma rx_close_gt: "m rx_close k c (CHR ''>'' # s) = k (c(4 \<mapsto> [])) s"
  by (simp add: rx_close_def)

lemma rx_close_slash_gt:
  "k (c(4 \<mapsto> ''/'')) s = Some res \<Longrightarrow> m rx_close k c (CHR ''/'' # CHR ''>'' # s) = Some res"
  by (simp add: rx_close_def)

lemma rx_close_other: "x \<noteq> CHR ''/'' \<Longrightarrow> x \<noteq> CHR ''>'' \<Longrightarrow> m rx_close k c (x # s) = None"
  by (simp add: rx_close_def)

lemma rx_close_slash_other: "y \<noteq> CHR ''>'' \<Longrightarrow> m rx_close k c (CHR ''/'' # y # s) = None"
  by (simp add: rx_close_def)

lemma rx_close_slash_end: "m rx_close k c ''/'' = None"
  by (simp add: rx_close_def)

lemma rx_close_end: "m rx_close k c [] = None"
  by (simp add: rx_close_def)

lemma not_space_gt [simp]: "\<not> is_space CHR ''>''" "\<not> is_space CHR ''/''" "\<not> is_space CHR ''<''"
  "is_space CHR '' ''"
  by (simp_all add: is_space_def)

lemma rx_tail_gt: "m rx_tail k c (CHR ''>'' # s) = k (c(4 \<mapsto> [])) s"
  by (simp add: rx_tail_def rx_close_gt)

lemma rx_tail_slash_gt:
  "k (c(4 \<mapsto> ''/'')) s = Some res \<Longrightarrow> m rx_tail k c (CHR ''/'' # CHR ''>'' # s) = Some res"
  by (simp add: rx_tail_def rx_close_slash_gt)

lemma rx_tail_fails:
  "w \<noteq> [] \<Longrightarrow> CHR ''>'' \<notin> set w \<Longrightarrow> \<not> is_space (last w) \<Longrightarrow> last w \<noteq> CHR ''/'' \<Longrightarrow>
     t = CHR ''>'' # s \<or> t = CHR ''/'' # CHR ''>'' # s \<Longrightarrow>
     m rx_tail k c (w @ t) = None"
proof (induction w)
  case Nil
  then show ?case by simp
next
  case (Cons x w)
  have x: "x \<noteq> CHR ''>''" using Cons.prems(2) by auto
  show ?case
  proof (cases "w = []")
    case True
    with Cons.prems have "\<not> is_space x" "x \<noteq> CHR ''/''" by auto
    with x True show ?thesis by (simp add: rx_tail_def rx_close_other)
  next
    case False
    with Cons.prems have ih: "m rx_tail k c (w @ t) = None"
      by (intro Cons.IH) auto
    from False obtain y w' where w: "w = y # w'" by (cases w) auto
    with Cons.prems(2) have y: "y \<noteq> CHR ''>''" by auto
    have cl: "m rx_close k c (x # w @ t) = None"
    proof (cases "x = CHR ''/''")
      case True
      with w y show ?thesis by (simp add: rx_close_slash_other)
    next
      case False
      with x show ?thesis by (simp add: rx_close_other)
    qed
    show ?thesis
    proof (cases "is_space x")
      case True
      with ih cl show ?thesis by (simp add: rx_tail_def)
    next
      case False
      with cl show ?thesis by (simp add: rx_tail_def)
    qed
  qed
qed

lemma rx_attrs_match:
  assumes "attrs_text_ok u"
    and "t = CHR ''>'' # s \<and> e = [] \<or> t = CHR ''/'' # CHR ''>'' # s \<and> e = ''/''"
    and "k (c(3 \<mapsto> u, 4 \<mapsto> e)) s = Some res"
  shows "m rx_attrs k c (u @ t) = Some res"
proof -
  let ?S = "u @ t"
  let ?K = "\<lambda>c' s'. m rx_tail k (c'(3 \<mapsto> take (length ?S - length s') ?S)) s'"
  have a: "list_all (\<lambda>c. c \<noteq> CHR ''>'') u"
    using assms(1) by (auto simp: attrs_text_ok_def list_all_iff)
  have b: "\<forall>i < length u. ?K c (drop i u @ t) = None"
  proof (intro allI impI)
    fix i assume i: "i < length u"
    then have ne: "drop i u \<noteq> []" by simp
    have "CHR ''>'' \<notin> set (drop i u)" using assms(1)
      by (auto simp: attrs_text_ok_def dest: in_set_dropD)
    moreover have "last (drop i u) = last u" using i by simp
    moreover have "u \<noteq> []" using i by auto
    ultimately show "?K c (drop i u @ t) = None"
      using assms(1,2) ne by (intro rx_tail_fails[where s=s]) (auto simp: attrs_text_ok_def)
  qed
  have c: "?K c t = Some res"
    using assms(2,3) by (auto simp: rx_tail_gt rx_tail_slash_gt)
  have "m (StarL (\<lambda>c. c \<noteq> CHR ''>'')) ?K c (u @ t) = Some res"
    by (rule m_StarL_lazy[where k="?K" and c=c and xs=u and s=t and res=res, OF a b c])
  then show ?thesis by (simp add: rx_attrs_def)
qed

lemma rx_name_match:
  assumes "name_ok tg" "attrs_text_ok u"
    and "t = CHR ''>'' # s \<and> e = [] \<or> t = CHR ''/'' # CHR ''>'' # s \<and> e = ''/'' \<and> u \<noteq> []"
    and "k (c(2 \<mapsto> tg, 3 \<mapsto> u, 4 \<mapsto> e)) s = Some res"
  shows "m rx_name k c (tg @ u @ t) = Some res"
proof -
  let ?S = "tg @ u @ t"
  let ?K = "\<lambda>c' s'. m rx_attrs k (c'(2 \<mapsto> take (length ?S - length s') ?S)) s'"
  have stop: "u @ t = [] \<or> \<not> (\<lambda>c. \<not> is_space c \<and> c \<noteq> CHR ''>'') (hd (u @ t))"
    using assms(2,3) by (cases u) (auto simp: attrs_text_ok_def)
  have "?K c (u @ t) = Some res"
    using assms(3,4) by (intro rx_attrs_match[OF assms(2), where s=s and e=e]) auto
  have kk: "?K c (u @ t) = Some res" by fact
  have ne: "tg \<noteq> []" and al: "list_all (\<lambda>c. \<not> is_space c \<and> c \<noteq> CHR ''>'') tg"
    using assms(1) by (simp_all add: name_ok_def)
  have "m (PlusG (\<lambda>c. \<not> is_space c \<and> c \<noteq> CHR ''>'')) ?K c (tg @ u @ t) = Some res"
    by (rule m_PlusG_greedy[where k="?K" and c=c and xs=tg and s="u @ t" and res=res,
          OF ne al stop kk])
  then show ?thesis by (simp add: rx_name_def)
qed

lemma tag_open_match:
  assumes "name_ok tg" "hd tg \<noteq> CHR ''/''" "attrs_text_ok u"
    and "t = CHR ''>'' # s \<and> e = [] \<or> t = CHR ''/'' # CHR ''>'' # s \<and> e = ''/'' \<and> u \<noteq> []"
  shows "m tagRegExp accept Map.empty (CHR ''<'' # tg @ u @ t)
         = Some (Map.empty(1 \<mapsto> [], 2 \<mapsto> tg, 3 \<mapsto> u, 4 \<mapsto> e), s)"
proof -
  from assms(1) obtain x tg' where tg: "tg = x # tg'" "\<not> is_space x"
    by (cases tg) (auto simp: name_ok_def)
  with assms(2) have x: "x \<noteq> CHR ''/''" by simp
  have "m rx_name accept (Map.empty(1 \<mapsto> [])) (tg @ u @ t)
        = Some (Map.empty(1 \<mapsto> [], 2 \<mapsto> tg, 3 \<mapsto> u, 4 \<mapsto> e), s)"
    by (rule rx_name_match[OF assms(1,3,4)]) (simp add: accept_def)
  then show ?thesis using tg x
    by (simp add: tagRegExp_pieces m_StarG_stop)
qed

lemma tag_close_match:
  assumes "name_ok tg"
  shows "m tagRegExp accept Map.empty (CHR ''<'' # CHR ''/'' # tg @ CHR ''>'' # s)
         = Some (Map.empty(1 \<mapsto> ''/'', 2 \<mapsto> tg, 3 \<mapsto> [], 4 \<mapsto> []), s)"
proof -
  from assms(1) obtain x tg' where tg: "tg = x # tg'" "\<not> is_space x"
    by (cases tg) (auto simp: name_ok_def)
  have "m rx_name accept (Map.empty(1 \<mapsto> ''/'')) (tg @ [] @ CHR ''>'' # s)
        = Some (Map.empty(1 \<mapsto> ''/'', 2 \<mapsto> tg, 3 \<mapsto> [], 4 \<mapsto> []), s)"
    by (rule rx_name_match[OF assms(1), where e="[]"]) (simp_all add: accept_def attrs_text_ok_def)
  then show ?thesis using tg
    by (simp add: tagRegExp_pieces m_StarG_stop)
qed

lemma js_ordered_butlast: "js_ordered (ks @ [k]) \<Longrightarrow> js_ordered ks"
  by (induction ks rule: js_ordered.induct) (auto split: if_splits)

lemma js_ordered_last_index:
  "js_ordered (ks @ [k]) \<Longrightarrow> is_array_index k \<Longrightarrow>
     \<forall>k' \<in> set ks. is_array_index k' \<and> index_val k' < index_val k"
proof (induction ks)
  case Nil
  then show ?case by simp
next
  case (Cons x ks)
  show ?case
  proof (cases ks)
    case Nil
    with Cons.prems show ?thesis by simp
  next
    case (Cons y ks')
    with Cons.prems have o: "js_ordered (ks @ [k])"
      and h: "is_array_index y \<longrightarrow> is_array_index x \<and> index_val x < index_val y"
      by (auto split: if_splits)
    from Cons.IH[OF o Cons.prems(2)]
    have all: "\<forall>k' \<in> set ks. is_array_index k' \<and> index_val k' < index_val k" .
    with Cons have "is_array_index y \<and> index_val y < index_val k" by simp
    with h all show ?thesis by auto
  qed
qed

lemma insert_index_end:
  "\<forall>kv \<in> set d. is_array_index (fst kv) \<and> index_val (fst kv) < index_val k \<Longrightarrow>
     insert_index k v d = d @ [(k, v)]"
  by (induction d) auto

lemma dict_set_new:
  assumes "dict_ok (d @ [(k, v)])"
  shows "dict_set k v d = d @ [(k, v)]"
proof -
  from assms have nin: "k \<notin> fst ` set d" and o: "js_ordered (map fst d @ [k])"
    by (auto simp: dict_ok_def)
  show ?thesis
  proof (cases "is_array_index k")
    case True
    from js_ordered_last_index[OF o True]
    have "\<forall>kv \<in> set d. is_array_index (fst kv) \<and> index_val (fst kv) < index_val k" by auto
    from insert_index_end[OF this] nin True show ?thesis by (simp add: dict_set_def)
  next
    case False
    with nin show ?thesis by (simp add: dict_set_def)
  qed
qed

lemma dict_ok_butlast: "dict_ok (d @ [kv]) \<Longrightarrow> dict_ok d"
  by (auto simp: dict_ok_def dest: js_ordered_butlast)

lemma foldl_dict_set:
  "dict_ok d \<Longrightarrow> foldl (\<lambda>acc kv. dict_set (fst kv) (snd kv) acc) [] d = d"
proof (induction d rule: rev_induct)
  case Nil
  then show ?case by simp
next
  case (snoc kv d)
  from snoc.IH[OF dict_ok_butlast[OF snoc.prems]] dict_set_new[of d "fst kv" "snd kv"] snoc.prems
  show ?case by simp
qed

lemma make_attrs_as_any:
  "make_attrs (as_any d) acc = foldl (\<lambda>acc kv. dict_set (fst kv) (snd kv) acc) acc d"
  by (induction d arbitrary: acc) (auto simp: as_any_def)

lemma Element_rebuild:
  "dict_ok ats \<Longrightarrow> Element ty (Some (as_any ats)) None = Node ty ats []"
  by (simp add: Element_def make_attrs_as_any foldl_dict_set)

lemma text_node_eq: "text_node c = Node (Some ''text'') [(''content'', c)] []"
  by (simp add: text_node_def dict_set_def is_array_index_def is_digit_def)

lemma enc_chars:
  "x \<in> set (enc True True True q c) \<Longrightarrow> x \<noteq> CHR ''<'' \<and> x \<noteq> CHR ''>'' \<and> (q \<longrightarrow> x \<noteq> dquote)"
  by (auto simp: enc_def dquote_def split: if_splits)

lemma escape_chars:
  "x \<in> set (escape s q) \<Longrightarrow> x \<noteq> CHR ''<'' \<and> x \<noteq> CHR ''>'' \<and> (q \<longrightarrow> x \<noteq> dquote)"
  unfolding escape_enc using enc_chars by fastforce

declare attr_loop.simps [simp del]

declare tokenize.simps [simp del]

declare comb_loop.simps [simp del]

lemma attrRegExp_pieces:
  "attrRegExp = Seq (Cap 1 (PlusG (\<lambda>c. \<not> is_space c \<and> c \<noteq> CHR ''=''))) (OptG rx_value)"
  by (simp add: attrRegExp_def rx_value_def)

lemma rx_value_match:
  assumes "dquote \<notin> set esc"
  shows "m rx_value accept c (CHR ''='' # dquote # esc @ dquote # rest)
         = Some (c(2 \<mapsto> esc), rest)"
proof -
  let ?S = "esc @ dquote # rest"
  let ?K = "\<lambda>c' s'. m (Chr dquote) accept (c'(2 \<mapsto> take (length ?S - length s') ?S)) s'"
  have a: "list_all (\<lambda>c. c \<noteq> dquote) esc" using assms by (auto simp: list_all_iff)
  have b: "dquote # rest = [] \<or> \<not> (\<lambda>c. c \<noteq> dquote) (hd (dquote # rest))" by simp
  have k: "?K c (dquote # rest) = Some (c(2 \<mapsto> esc), rest)" by (simp add: accept_def)
  have "m (StarG (\<lambda>c. c \<noteq> dquote)) ?K c (esc @ dquote # rest) = Some (c(2 \<mapsto> esc), rest)"
    by (rule m_StarG_greedy[where k="?K" and c=c and xs=esc and s="dquote # rest", OF a b k])
  then show ?thesis by (simp add: rx_value_def)
qed

lemma rx_value_none: "rest = [] \<or> hd rest \<noteq> CHR ''='' \<Longrightarrow> m rx_value k c rest = None"
  by (cases rest) (auto simp: rx_value_def)

lemma attr_match:
  assumes "key_ok hk"
    and "val = [] \<and> cap = Map.empty(1 \<mapsto> hk) \<and> (rest = [] \<or> is_space (hd rest))
         \<or> (\<exists>esc. val = CHR ''='' # dquote # esc @ [dquote] \<and> dquote \<notin> set esc
                \<and> cap = Map.empty(1 \<mapsto> hk, 2 \<mapsto> esc))"
  shows "m attrRegExp accept Map.empty (hk @ val @ rest) = Some (cap, rest)"
proof -
  let ?p = "\<lambda>c. \<not> is_space c \<and> c \<noteq> CHR ''=''"
  let ?S = "hk @ val @ rest"
  let ?K = "\<lambda>c' s'. m (OptG rx_value) accept (c'(1 \<mapsto> take (length ?S - length s') ?S)) s'"
  have ne: "hk \<noteq> []" and al: "list_all ?p hk"
    using assms(1) by (auto simp: key_ok_def list_all_iff)
  have stop: "val @ rest = [] \<or> \<not> ?p (hd (val @ rest))"
    using assms(2) by (cases rest) auto
  from assms(2) consider
      (flag) "val = []" "cap = Map.empty(1 \<mapsto> hk)" "rest = [] \<or> is_space (hd rest)"
    | (valued) esc where "val = CHR ''='' # dquote # esc @ [dquote]" "dquote \<notin> set esc"
        "cap = Map.empty(1 \<mapsto> hk, 2 \<mapsto> esc)"
    by blast
  then have k: "?K Map.empty (val @ rest) = Some (cap, rest)"
  proof cases
    case flag
    from flag(3) have "m rx_value accept (Map.empty(1 \<mapsto> hk)) rest = None"
      by (intro rx_value_none) (auto simp: is_space_def)
    with flag show ?thesis by (simp add: accept_def)
  next
    case valued
    with rx_value_match[of esc "Map.empty(1 \<mapsto> hk)" rest] show ?thesis by simp
  qed
  have "m (PlusG ?p) ?K Map.empty (hk @ val @ rest) = Some (cap, rest)"
    by (rule m_PlusG_greedy[where k="?K" and xs=hk and s="val @ rest", OF ne al stop k])
  then show ?thesis by (simp add: attrRegExp_pieces)
qed

lemma attr_no_match_space: "is_space x \<Longrightarrow> m attrRegExp k c (x # s) = None"
  by (simp add: attrRegExp_pieces)

lemma attr_no_match_end: "m attrRegExp k c [] = None"
  by (simp add: attrRegExp_pieces)

lemma attr_string_eq: "attr_string (k, v) = CHR '' '' # hyphenate k @ attr_value_text v"
  by (simp add: attr_string_def attr_value_text_def)

lemma attr_exec:
  assumes "attr_ok (k, v)" "rest = [] \<or> is_space (hd rest)"
  shows "\<exists>cap. exec_at attrRegExp (attr_string (k, v) @ rest) i = Some (Suc i, cap, rest)
           \<and> camelize (group cap 1) = k \<and> unescape (group cap 2) = v"
proof -
  from assms(1) have ko: "key_ok (hyphenate k)" and ck: "camelize (hyphenate k) = k"
    by (simp_all add: attr_ok_def)
  let ?cap = "if v = [] then Map.empty(1 \<mapsto> hyphenate k)
              else Map.empty(1 \<mapsto> hyphenate k, 2 \<mapsto> escape v True)"
  have dq: "dquote \<notin> set (escape v True)" using escape_chars[of dquote v True] by auto
  have mm: "m attrRegExp accept Map.empty (hyphenate k @ attr_value_text v @ rest) = Some (?cap, rest)"
    by (rule attr_match[OF ko]) (use assms(2) dq in \<open>auto simp: attr_value_text_def\<close>)
  from ko obtain x hk' where hk: "hyphenate k = x # hk'" by (cases "hyphenate k") (auto simp: key_ok_def)
  have "exec_at attrRegExp (attr_string (k, v) @ rest) i = Some (Suc i, ?cap, rest)"
    using mm hk by (simp add: attr_string_eq attr_no_match_space)
  moreover have "camelize (group ?cap 1) = k" using ck by (simp add: group_def)
  moreover have "unescape (group ?cap 2) = v"
  proof (cases "v = []")
    case True
    then show ?thesis by (simp add: group_def unescape_def)
  next
    case False
    then show ?thesis by (simp add: group_def escape_enc unescape_enc)
  qed
  ultimately show ?thesis by blast
qed

lemma attr_string_nonempty: "attr_string kv \<noteq> []"
  by (cases kv) (simp add: attr_string_eq)

lemma attrs_rest_space:
  "concat (map attr_string todo) = [] \<or> is_space (hd (concat (map attr_string todo)))"
proof (cases todo)
  case Nil then show ?thesis by simp
next
  case (Cons kv todo')
  then show ?thesis by (cases kv) (simp add: attr_string_eq)
qed

lemma attr_loop_attrs:
  "list_all attr_ok todo \<Longrightarrow>
     attr_loop (pre @ concat (map attr_string todo)) (length pre) d
     = foldl (\<lambda>acc kv. dict_set (fst kv) (snd kv) acc) d todo"
proof (induction todo arbitrary: pre d)
  case Nil
  have "exec_global attrRegExp pre (length pre) = None"
    by (simp add: exec_global_def attr_no_match_end)
  then show ?case by (subst attr_loop.simps) simp
next
  case (Cons kv todo)
  obtain k v where kv: "kv = (k, v)" by force
  let ?rest = "concat (map attr_string todo)"
  let ?S = "pre @ concat (map attr_string (kv # todo))"
  from Cons.prems kv have ok: "attr_ok (k, v)" and oks: "list_all attr_ok todo" by simp_all
  from attr_exec[OF ok attrs_rest_space[of todo], of "length pre"]
  obtain cap where e: "exec_at attrRegExp (attr_string (k, v) @ ?rest) (length pre)
        = Some (Suc (length pre), cap, ?rest)"
    and ck: "camelize (group cap 1) = k" and uv: "unescape (group cap 2) = v" by blast
  have eg: "exec_global attrRegExp (pre @ attr_string kv @ ?rest) (length pre)
        = Some (Suc (length pre), cap, length pre + length (attr_string kv))"
    using e kv by (simp add: exec_global_def)
  have "attr_loop ?S (length pre) d
        = attr_loop ?S (length (pre @ attr_string kv)) (dict_set k v d)"
    by (subst attr_loop.simps) (use ck uv in \<open>simp add: eg\<close>)
  also have "?S = (pre @ attr_string kv) @ concat (map attr_string todo)" by simp
  also have "attr_loop ((pre @ attr_string kv) @ concat (map attr_string todo))
        (length (pre @ attr_string kv)) (dict_set k v d)
        = foldl (\<lambda>acc kv. dict_set (fst kv) (snd kv) acc) (dict_set k v d) todo"
    by (rule Cons.IH[OF oks])
  finally show ?case using kv by simp
qed

lemma attr_loop_rebuild:
  "list_all attr_ok ats \<Longrightarrow> dict_ok ats \<Longrightarrow>
     attr_loop (concat (map attr_string ats)) 0 [] = ats"
  using attr_loop_attrs[of ats "[]" "[]"] by (simp add: foldl_dict_set)

lemma attrs_text_ok_attrs:
  assumes "list_all attr_ok ats"
  shows "attrs_text_ok (concat (map attr_string ats))"
proof -
  have one: "\<And>k v. attr_ok (k, v) \<Longrightarrow>
      CHR ''>'' \<notin> set (attr_string (k, v)) \<and> \<not> is_space (last (attr_string (k, v)))
      \<and> last (attr_string (k, v)) \<noteq> CHR ''/''"
  proof -
    fix k v assume "attr_ok (k, v)"
    then have ko: "key_ok (hyphenate k)" by (simp add: attr_ok_def)
    then have a: "CHR ''>'' \<notin> set (hyphenate k)" "hyphenate k \<noteq> []"
      "\<not> is_space (last (hyphenate k))" "last (hyphenate k) \<noteq> CHR ''/''"
      by (auto simp: key_ok_def list_all_iff)
    have b: "CHR ''>'' \<notin> set (escape v True)" using escape_chars[of "CHR ''>''" v True] by auto
    show "CHR ''>'' \<notin> set (attr_string (k, v)) \<and> \<not> is_space (last (attr_string (k, v)))
      \<and> last (attr_string (k, v)) \<noteq> CHR ''/''"
      using a b by (auto simp: attr_string_eq attr_value_text_def dquote_def is_space_def)
  qed
  show ?thesis
  proof (cases ats rule: rev_cases)
    case Nil
    then show ?thesis by (simp add: attrs_text_ok_def)
  next
    case (snoc ats' kv)
    obtain k v where kv: "kv = (k, v)" by force
    from assms have all: "\<forall>kv \<in> set ats. attr_ok kv" by (simp add: list_all_iff)
    have gt: "CHR ''>'' \<notin> set (concat (map attr_string ats))"
    proof
      assume "CHR ''>'' \<in> set (concat (map attr_string ats))"
      then obtain kv' where "kv' \<in> set ats" "CHR ''>'' \<in> set (attr_string kv')" by auto
      with all one[of "fst kv'" "snd kv'"] show False by auto
    qed
    have l: "last (concat (map attr_string ats)) = last (attr_string (k, v))"
      using snoc kv attr_string_nonempty[of "(k, v)"] by simp
    have ne: "concat (map attr_string ats) \<noteq> []"
      using snoc attr_string_nonempty[of kv] by simp
    have "attr_ok (k, v)" using all snoc kv by simp
    moreover from ne attrs_rest_space[of ats]
    have "is_space (hd (concat (map attr_string ats)))" by blast
    ultimately show ?thesis using one[of k v] l gt
      by (simp add: attrs_text_ok_def)
  qed
qed

lemma join_results_Inr: "join_results (map Inr xs) = Inr (concat xs)"
  by (induction xs) auto

lemma wf_text_node:
  "wf_node (Node (Some ''text'') ats cs) \<Longrightarrow> \<exists>c. c \<noteq> [] \<and> ats = [(''content'', c)] \<and> cs = []"
  by (auto split: option.splits)

lemma toString_node_text: "wf_node n \<Longrightarrow> toString n = Inr (node_text n)"
proof (induction n)
  case (Node ty ats cs)
  from Node.prems obtain t where t: "ty = Some t" by (cases ty) auto
  show ?case
  proof (cases "t = ''text''")
    case True
    with Node.prems t wf_text_node[of ats cs] obtain c where "ats = [(''content'', c)]" by auto
    with True t show ?thesis by (simp add: dict_get_def)
  next
    case False
    from Node.prems t False have "\<forall>c \<in> set cs. toString c = Inr (node_text c)"
      using Node.IH by auto
    then have "map toString cs = map Inr (map node_text cs)" by simp
    then have j: "join_results (map toString cs) = Inr (concat (map node_text cs))"
      by (simp only: join_results_Inr)
    from Node.prems t False have "t \<noteq> []" by (auto simp: tag_ok_def name_ok_def)
    with t False j show ?thesis
      by (simp add: self_text_def open_text_def close_text_def attrs_text_def Let_def)
  qed
qed

lemma serialize_forest:
  "\<forall>n \<in> set forest. wf_node n \<Longrightarrow> serialize forest = Inr (concat (map node_text forest))"
proof -
  assume "\<forall>n \<in> set forest. wf_node n"
  then have "map toString forest = map Inr (map node_text forest)"
    by (simp add: toString_node_text)
  then show ?thesis unfolding serialize_def by (simp only: join_results_Inr)
qed

lemma tag_no_match: "y \<noteq> CHR ''<'' \<Longrightarrow> m tagRegExp k c (y # s) = None"
  by (simp add: tagRegExp_pieces)

lemma tag_no_match_end: "m tagRegExp k c [] = None"
  by (simp add: tagRegExp_pieces)

lemma exec_at_miss:
  "m r accept Map.empty (y # ys) = None \<Longrightarrow> exec_at r (y # ys) i = exec_at r ys (Suc i)"
  by simp

lemma exec_at_skip:
  "CHR ''<'' \<notin> set pre \<Longrightarrow>
     exec_at tagRegExp (pre @ x # s) i = exec_at tagRegExp (x # s) (i + length pre)"
proof (induction pre arbitrary: i)
  case Nil
  show ?case by simp
next
  case (Cons a pre)
  then have "a \<noteq> CHR ''<''" "CHR ''<'' \<notin> set pre" by auto
  from exec_at_miss[where r=tagRegExp and y=a and ys="pre @ x # s" and i=i,
      OF tag_no_match[OF this(1)]] Cons.IH[OF this(2), of "Suc i"]
  show ?case by (simp del: exec_at.simps)
qed

lemma exec_at_none: "CHR ''<'' \<notin> set s \<Longrightarrow> exec_at tagRegExp s i = None"
  by (induction s arbitrary: i) (auto simp: tag_no_match tag_no_match_end)

lemma tokenize_plain:
  "CHR ''<'' \<notin> set s \<Longrightarrow> tokenize s = (if s \<noteq> [] then [TText s] else [])"
  by (subst tokenize.simps) (simp add: exec_def exec_at_none)

lemma tokenize_step:
  assumes "CHR ''<'' \<notin> set pre"
    and "m tagRegExp accept Map.empty (CHR ''<'' # body)
         = Some (Map.empty(1 \<mapsto> cl, 2 \<mapsto> tg, 3 \<mapsto> u, 4 \<mapsto> e), rest)"
  shows "tokenize (pre @ CHR ''<'' # body)
         = (if pre \<noteq> [] then [TText (unescape pre)] else [])
           @ TTag (Token tg cl e (attr_loop u 0 [])) # tokenize rest"
proof -
  have "exec tagRegExp (pre @ CHR ''<'' # body)
        = Some (length pre, Map.empty(1 \<mapsto> cl, 2 \<mapsto> tg, 3 \<mapsto> u, 4 \<mapsto> e), rest)"
    using assms by (simp add: exec_def exec_at_skip)
  then show ?thesis
    by (subst tokenize.simps) (simp add: group_def)
qed

lemma tokenize_open:
  assumes "CHR ''<'' \<notin> set pre" "tag_ok t" "attrs_ok ats"
  shows "tokenize (pre @ open_text t ats @ rest)
         = (if pre \<noteq> [] then [TText (unescape pre)] else [])
           @ TTag (Token t [] [] ats) # tokenize rest"
proof -
  from assms(2,3) have n: "name_ok t" "hd t \<noteq> CHR ''/''"
    and a: "attrs_text_ok (attrs_text ats)" and l: "attr_loop (attrs_text ats) 0 [] = ats"
    by (auto simp: tag_ok_def attrs_ok_def attrs_text_def attrs_text_ok_attrs attr_loop_rebuild)
  have "m tagRegExp accept Map.empty (CHR ''<'' # t @ attrs_text ats @ CHR ''>'' # rest)
        = Some (Map.empty(1 \<mapsto> [], 2 \<mapsto> t, 3 \<mapsto> attrs_text ats, 4 \<mapsto> []), rest)"
    by (rule tag_open_match[OF n a]) simp
  from tokenize_step[OF assms(1) this] l show ?thesis by (simp add: open_text_def)
qed

lemma tokenize_self:
  assumes "CHR ''<'' \<notin> set pre" "tag_ok t" "attrs_ok ats" "ats \<noteq> []"
  shows "tokenize (pre @ self_text t ats @ rest)
         = (if pre \<noteq> [] then [TText (unescape pre)] else [])
           @ TTag (Token t [] ''/'' ats) # tokenize rest"
proof -
  from assms(2,3) have n: "name_ok t" "hd t \<noteq> CHR ''/''"
    and a: "attrs_text_ok (attrs_text ats)" and l: "attr_loop (attrs_text ats) 0 [] = ats"
    by (auto simp: tag_ok_def attrs_ok_def attrs_text_def attrs_text_ok_attrs attr_loop_rebuild)
  from assms(4) have ne: "attrs_text ats \<noteq> []"
    by (cases ats) (auto simp: attrs_text_def attr_string_nonempty)
  have "m tagRegExp accept Map.empty
          (CHR ''<'' # t @ attrs_text ats @ CHR ''/'' # CHR ''>'' # rest)
        = Some (Map.empty(1 \<mapsto> [], 2 \<mapsto> t, 3 \<mapsto> attrs_text ats, 4 \<mapsto> ''/''), rest)"
    by (rule tag_open_match[OF n a]) (simp add: ne)
  from tokenize_step[OF assms(1) this] l show ?thesis by (simp add: self_text_def)
qed

lemma tokenize_close:
  assumes "CHR ''<'' \<notin> set pre" "name_ok t"
  shows "tokenize (pre @ close_text t @ rest)
         = (if pre \<noteq> [] then [TText (unescape pre)] else [])
           @ TTag (Token t ''/'' [] []) # tokenize rest"
proof -
  have l: "attr_loop [] 0 [] = []"
    by (subst attr_loop.simps) (simp add: exec_global_def attr_no_match_end)
  from tokenize_step[OF assms(1) tag_close_match[OF assms(2)]] l
  show ?thesis by (simp add: close_text_def)
qed

lemma tokenize_text_before_tag:
  assumes "CHR ''<'' \<notin> set pre" "pre \<noteq> []" "starts_with_tag s"
  shows "tokenize (pre @ s) = TText (unescape pre) # tokenize s"
proof -
  from assms(3) obtain t ats r where n: "name_ok t" and
    c: "tag_ok t \<and> attrs_ok ats \<and> s = open_text t ats @ r
         \<or> tag_ok t \<and> attrs_ok ats \<and> ats \<noteq> [] \<and> s = self_text t ats @ r
         \<or> s = close_text t @ r"
    unfolding starts_with_tag_def by blast
  from c show ?thesis
  proof (elim disjE conjE)
    assume "tag_ok t" "attrs_ok ats" "s = open_text t ats @ r"
    with tokenize_open[OF assms(1), of t ats r] tokenize_open[of "[]" t ats r] assms(2)
    show ?thesis by simp
  next
    assume "tag_ok t" "attrs_ok ats" "ats \<noteq> []" "s = self_text t ats @ r"
    with tokenize_self[OF assms(1), of t ats r] tokenize_self[of "[]" t ats r] assms(2)
    show ?thesis by simp
  next
    assume "s = close_text t @ r"
    with tokenize_close[OF assms(1) n, of r] tokenize_close[of "[]" t r] n assms(2)
    show ?thesis by simp
  qed
qed

lemma escape_nonempty: "c \<noteq> [] \<Longrightarrow> escape c q \<noteq> []"
  by (cases c) (auto simp: escape_enc enc_def)

lemma escape_no_lt: "CHR ''<'' \<notin> set (escape c q)"
  using escape_chars[of "CHR ''<''" c q] by auto

lemma element_starts_with_tag:
  assumes "wf_node n" "\<not> is_text n"
  shows "starts_with_tag (node_text n @ rest)"
proof (cases n)
  case (Node ty ats cs)
  with assms obtain t where t: "ty = Some t" "t \<noteq> ''text''" "tag_ok t" "attrs_ok ats"
    "ats \<noteq> [] \<or> cs \<noteq> []"
    by (cases ty) (auto simp: is_text_def split: if_splits)
  then have n: "name_ok t" by (simp add: tag_ok_def)
  show ?thesis
  proof (cases "cs = []")
    case True
    with t Node have "node_text n @ rest = self_text t ats @ rest" "ats \<noteq> []" by auto
    with t n show ?thesis unfolding starts_with_tag_def by blast
  next
    case False
    with t Node have "node_text n @ rest
        = open_text t ats @ (concat (map node_text cs) @ close_text t @ rest)" by simp
    with t n show ?thesis unfolding starts_with_tag_def by blast
  qed
qed

lemma close_starts_with_tag: "name_ok t \<Longrightarrow> starts_with_tag (close_text t @ rest)"
  unfolding starts_with_tag_def by blast

lemma tokenize_forest:
  assumes "\<forall>n \<in> set f. wf_node n \<and> node_claim n" "no_adjacent_text f"
    and "f = [] \<or> follows_ok (last f) rest"
  shows "tokenize (concat (map node_text f) @ rest) = concat (map node_toks f) @ tokenize rest"
  using assms
proof (induction f)
  case Nil
  show ?case by simp
next
  case (Cons n f)
  from Cons.prems(1) have wn: "wf_node n" and cn: "node_claim n" by auto
  have fo: "follows_ok n (concat (map node_text f) @ rest)"
  proof (cases f)
    case Nil
    with Cons.prems(3) show ?thesis by simp
  next
    case (Cons e f')
    show ?thesis
    proof (cases "is_text n")
      case True
      with Cons Cons.prems(2) have "\<not> is_text e" by simp
      moreover from Cons Cons.prems(1) have "wf_node e" by simp
      ultimately have "starts_with_tag (node_text e @ (concat (map node_text f') @ rest))"
        by (rule element_starts_with_tag[rotated])
      with Cons show ?thesis by (simp add: follows_ok_def)
    next
      case False
      then show ?thesis by (simp add: follows_ok_def)
    qed
  qed
  have ih: "tokenize (concat (map node_text f) @ rest) = concat (map node_toks f) @ tokenize rest"
  proof (rule Cons.IH)
    show "\<forall>n \<in> set f. wf_node n \<and> node_claim n" using Cons.prems(1) by simp
    show "no_adjacent_text f" using Cons.prems(2) by (cases f) auto
    show "f = [] \<or> follows_ok (last f) rest" using Cons.prems(3) by (cases f) auto
  qed
  from cn fo have "tokenize (node_text n @ (concat (map node_text f) @ rest))
      = node_toks n @ tokenize (concat (map node_text f) @ rest)"
    unfolding node_claim_def by blast
  with ih show ?case by simp
qed

lemma tokenize_node: "wf_node n \<Longrightarrow> node_claim n"
proof (induction n)
  case (Node ty ats cs)
  from Node.prems obtain t where t: "ty = Some t" by (cases ty) auto
  show ?case
  proof (cases "t = ''text''")
    case True
    with Node.prems t wf_text_node[of ats cs] obtain c where
      c: "c \<noteq> []" "ats = [(''content'', c)]" "cs = []" by auto
    show ?thesis
      unfolding node_claim_def
    proof (intro allI impI)
      fix rest
      assume "follows_ok (Node ty ats cs) rest"
      with t True c consider (final) "rest = []" "escape c False = c"
        | (tag) "starts_with_tag rest"
        by (auto simp: follows_ok_def is_text_def plain_text_def dict_get_def)
      then show "tokenize (node_text (Node ty ats cs) @ rest)
                 = node_toks (Node ty ats cs) @ tokenize rest"
      proof cases
        case final
        have "CHR ''<'' \<notin> set c" using escape_no_lt[of c False] final(2) by simp
        from tokenize_plain[OF this] tokenize_plain[of "[]"] final c t True
        show ?thesis by (simp add: dict_get_def)
      next
        case tag
        from tokenize_text_before_tag[OF escape_no_lt escape_nonempty[OF c(1)] tag, of False]
        show ?thesis using t True c by (simp add: dict_get_def escape_enc unescape_enc)
      qed
    qed
  next
    case False
    with Node.prems t have w: "tag_ok t" "attrs_ok ats" "ats \<noteq> [] \<or> cs \<noteq> []"
      "\<forall>c \<in> set cs. wf_node c" "no_adjacent_text cs" by auto
    then have n: "name_ok t" by (simp add: tag_ok_def)
    show ?thesis
      unfolding node_claim_def
    proof (intro allI impI)
      fix rest
      show "tokenize (node_text (Node ty ats cs) @ rest)
            = node_toks (Node ty ats cs) @ tokenize rest"
      proof (cases "cs = []")
        case True
        with w have "ats \<noteq> []" by simp
        from tokenize_self[of "[]" t ats rest, OF _ w(1,2) this] t False True
        show ?thesis by simp
      next
        case nonempty: False
        have all: "\<forall>c \<in> set cs. wf_node c \<and> node_claim c" using w(4) Node.IH by blast
        have fo: "cs = [] \<or> follows_ok (last cs) (close_text t @ rest)"
          using close_starts_with_tag[OF n] by (simp add: follows_ok_def)
        have "tokenize (concat (map node_text cs) @ close_text t @ rest)
              = concat (map node_toks cs) @ tokenize (close_text t @ rest)"
          by (rule tokenize_forest[OF all w(5) fo])
        moreover have "tokenize (close_text t @ rest) = TTag (Token t ''/'' [] []) # tokenize rest"
          using tokenize_close[of "[]" t rest] n by simp
        moreover have "tokenize (open_text t ats @ concat (map node_text cs) @ close_text t @ rest)
              = TTag (Token t [] [] ats) # tokenize (concat (map node_text cs) @ close_text t @ rest)"
          using tokenize_open[of "[]" t ats, OF _ w(1,2)] by simp
        ultimately show ?thesis using t False nonempty by simp
      qed
    qed
  qed
qed

lemma build_forest:
  assumes "\<forall>n \<in> set f. wf_node n
            \<and> (\<forall>toks cur below. build (node_toks n @ toks) (cur # below)
                  = build toks (push_child n cur # below))"
  shows "build (concat (map node_toks f) @ toks) (Node ty ats cs # below)
         = build toks (Node ty ats (cs @ f) # below)"
  using assms
proof (induction f arbitrary: cs)
  case Nil
  show ?case by simp
next
  case (Cons n f)
  from Cons.prems have
    "build (node_toks n @ (concat (map node_toks f) @ toks)) (Node ty ats cs # below)
     = build (concat (map node_toks f) @ toks) (push_child n (Node ty ats cs) # below)"
    by simp
  also have "push_child n (Node ty ats cs) = Node ty ats (cs @ [n])"
    by (simp add: push_child_def)
  also have "build (concat (map node_toks f) @ toks) (Node ty ats (cs @ [n]) # below)
     = build toks (Node ty ats ((cs @ [n]) @ f) # below)"
    by (rule Cons.IH) (use Cons.prems in simp)
  finally show ?case by simp
qed

lemma build_node:
  "wf_node n \<Longrightarrow> build (node_toks n @ toks) (cur # below) = build toks (push_child n cur # below)"
proof (induction n arbitrary: toks cur below)
  case (Node ty ats cs)
  from Node.prems obtain t where t: "ty = Some t" by (cases ty) auto
  show ?case
  proof (cases "t = ''text''")
    case True
    with Node.prems t wf_text_node[of ats cs] obtain c where
      c: "c \<noteq> []" "ats = [(''content'', c)]" "cs = []" by auto
    with t True show ?thesis by (simp add: dict_get_def text_node_eq)
  next
    case False
    with Node.prems t have w: "tag_ok t" "attrs_ok ats" "ats \<noteq> [] \<or> cs \<noteq> []"
      "\<forall>c \<in> set cs. wf_node c" by auto
    then have el: "Element (Some t) (Some (as_any ats)) None = Node (Some t) ats []"
      by (simp add: Element_rebuild attrs_ok_def)
    show ?thesis
    proof (cases "cs = []")
      case True
      with t False el show ?thesis by simp
    next
      case nonempty: False
      have all: "\<forall>n \<in> set cs. wf_node n
            \<and> (\<forall>toks cur below. build (node_toks n @ toks) (cur # below)
                  = build toks (push_child n cur # below))"
        using w(4) Node.IH by blast
      have "build (concat (map node_toks cs) @ (TTag (Token t ''/'' [] []) # toks))
              (Node (Some t) ats [] # cur # below)
            = build (TTag (Token t ''/'' [] []) # toks) (Node (Some t) ats ([] @ cs) # cur # below)"
        by (rule build_forest[OF all])
      then show ?thesis using t False nonempty el by simp
    qed
  qed
qed


text \<open>
  C5 (as amended): for every well-formed forest (text nodes with the one attribute
  \<^verbatim>\<open>content\<close>, not empty; elements with a tag name for type, attribute keys that
  come back from their hyphenated form, and at least one attribute or child; no two
  text nodes next to each other; a last top-level text node without \<^verbatim>\<open>&\<close>,
  \<^verbatim>\<open><\<close> and \<^verbatim>\<open>>\<close>) the serializations of the nodes do not throw, and parsing
  their concatenation gives the forest back: the same types, attrs in the same order
  and children.  The attribute values are arbitrary strings and so are the contents
  of the text nodes inside elements.
\<close>

theorem parse_serialize_roundtrip:
  assumes "wf_forest forest"
  shows "\<exists>text. serialize forest = Inr text \<and> parse text = Inr forest"
proof -
  from assms have w: "\<forall>n \<in> set forest. wf_node n" and na: "no_adjacent_text forest"
    and lp: "last_text_plain forest" by (simp_all add: wf_forest_def)
  let ?text = "concat (map node_text forest)"
  have s: "serialize forest = Inr ?text" by (rule serialize_forest[OF w])
  have all: "\<forall>n \<in> set forest. wf_node n \<and> node_claim n" using w tokenize_node by blast
  have fo: "forest = [] \<or> follows_ok (last forest) []"
    using lp by (auto simp: last_text_plain_def follows_ok_def plain_text_def)
  have "tokenize (?text @ []) = concat (map node_toks forest) @ tokenize []"
    by (rule tokenize_forest[OF all na fo])
  then have tk: "tokenize ?text = concat (map node_toks forest)"
    using tokenize_plain[of "[]"] by simp
  have ball: "\<forall>n \<in> set forest. wf_node n
            \<and> (\<forall>toks cur below. build (node_toks n @ toks) (cur # below)
                  = build toks (push_child n cur # below))"
    using w build_node by blast
  have "build (concat (map node_toks forest) @ []) (Node None [] [] # [])
        = build [] (Node None [] ([] @ forest) # [])"
    by (rule build_forest[OF ball])
  then have "parse ?text = Inr forest"
    by (simp add: parse_def tk Element_def)
  with s show ?thesis by blast
qed

theorem parse_serialize_roundtrip_witness:
  "wf_forest
     [Node (Some ''a'') [(''k'', ''x<y&z''), (''noDisabled'', [])]
        [Node (Some ''text'') [(''content'', ''1 < 2'')] [],
         Node (Some ''b'') [(''id'', ''7'')] []],
      Node (Some ''text'') [(''content'', ''tail'')] []]
   \<and> serialize
     [Node (Some ''a'') [(''k'', ''x<y&z''), (''noDisabled'', [])]
        [Node (Some ''text'') [(''content'', ''1 < 2'')] [],
         Node (Some ''b'') [(''id'', ''7'')] []],
      Node (Some ''text'') [(''content'', ''tail'')] []]
     = Inr (''<a k='' @ [dquote] @ ''x&lt;y&amp;z'' @ [dquote] @ '' no-disabled>1 &lt; 2<b id=''
            @ [dquote] @ ''7'' @ [dquote] @ ''/></a>tail'')
   \<and> parse (''<a k='' @ [dquote] @ ''x&lt;y&amp;z'' @ [dquote] @ '' no-disabled>1 &lt; 2<b id=''
            @ [dquote] @ ''7'' @ [dquote] @ ''/></a>tail'')
     = Inr
     [Node (Some ''a'') [(''k'', ''x<y&z''), (''noDisabled'', [])]
        [Node (Some ''text'') [(''content'', ''1 < 2'')] [],
         Node (Some ''b'') [(''id'', ''7'')] []],
      Node (Some ''text'') [(''content'', ''tail'')] []]"
proof -
  let ?forest = "[Node (Some ''a'') [(''k'', ''x<y&z''), (''noDisabled'', [])]
        [Node (Some ''text'') [(''content'', ''1 < 2'')] [],
         Node (Some ''b'') [(''id'', ''7'')] []],
      Node (Some ''text'') [(''content'', ''tail'')] []]"
  let ?text = "''<a k='' @ [dquote] @ ''x&lt;y&amp;z'' @ [dquote] @ '' no-disabled>1 &lt; 2<b id=''
            @ [dquote] @ ''7'' @ [dquote] @ ''/></a>tail''"
  have w: "wf_forest ?forest" by code_simp
  have s: "serialize ?forest = Inr ?text" by code_simp
  from parse_serialize_roundtrip[OF w] obtain t where
    "serialize ?forest = Inr t" "parse t = Inr ?forest" by blast
  with s have "parse ?text = Inr ?forest" by simp
  with w s show ?thesis by blast
qed

text \<open>
  C5 as stated fails on forests the constructors build from plain characters: the two
  text children of \<^verbatim>\<open>Element('a', ['x', 'y'])\<close> are serialized side by side and
  parse back as one text node.
\<close>

theorem roundtrip_merges_adjacent_text:
  "Element (Some ''a'') None (Some (OfArray [IStr ''x'', IStr ''y'']))
     = Node (Some ''a'') []
         [Node (Some ''text'') [(''content'', ''x'')] [],
          Node (Some ''text'') [(''content'', ''y'')] []]
   \<and> serialize [Element (Some ''a'') None (Some (OfArray [IStr ''x'', IStr ''y'']))]
       = Inr ''<a>xy</a>''
   \<and> parse ''<a>xy</a>''
       = Inr [Node (Some ''a'') [] [Node (Some ''text'') [(''content'', ''xy'')] []]]"
  by code_simp

text \<open>
  The two forms the amended claim leaves out.  An element without attributes and
  children is serialized as \<^verbatim>\<open><a/>\<close>, which is read as an open element of type
  \<^verbatim>\<open>a/\<close> (the tag name of \<^const>\<open>tagRegExp\<close> takes the slash); and the text after
  the last tag is pushed without \<^verbatim>\<open>unescape\<close> (line 184), unlike the text before a
  tag (line 172).
\<close>

lemma roundtrip_left_out:
  "serialize [Element (Some ''a'') None None] = Inr ''<a/>''
   \<and> parse ''<a/>'' = Inr [Node (Some ''a/'') [] []]
   \<and> serialize [Element (Some ''text'') (Some [(''content'', Str ''<'')]) None] = Inr ''&lt;''
   \<and> parse ''&lt;'' = Inr [Node (Some ''text'') [(''content'', ''&lt;'')] []]
   \<and> parse ''&lt;<b k/>'' = Inr [Node (Some ''text'') [(''content'', ''<'')] [],
                                  Node (Some ''b'') [(''k'', [])] []]"
  by code_simp

end
